theory Spec2Isabelle
  imports Main "HOL-Library.Word" "HOL-Library.Multiset" "HOL-Library.AList"
begin

section \<open>The mev-boost service (server/service.go)\<close>

text \<open>
  A shallow embedding of \<^verbatim>\<open>server/service.go\<close>. The handlers fan one request out to
  every configured relay, one goroutine per relay. What \<^verbatim>\<open>SendHTTPRequest\<close> returns to
  the goroutine of the relay at index \<open>i\<close> is an input of the model (a function of
  \<open>i\<close>), and so is the order in which the goroutines run.
\<close>

subsection \<open>Library types\<close>

type_synonym byte = "8 word"

text \<open>\<^verbatim>\<open>types.Hash\<close> is \<^verbatim>\<open>[32]byte\<close>, \<^verbatim>\<open>types.PublicKey\<close> is \<^verbatim>\<open>[48]byte\<close>,
  \<^verbatim>\<open>types.Signature\<close> is \<^verbatim>\<open>[96]byte\<close>, \<^verbatim>\<open>types.Domain\<close> is \<^verbatim>\<open>[32]byte\<close>;
  \<^verbatim>\<open>types.U256Str\<close> is an unsigned 256-bit integer, compared by \<^verbatim>\<open>Cmp\<close> as such.\<close>

type_synonym Hash = "byte list"
type_synonym PublicKey = "byte list"
type_synonym Signature = "byte list"
type_synonym Domain = "byte list"
type_synonym U256Str = "256 word"

text \<open>Wall-clock readings (\<^verbatim>\<open>time.Time\<close>) and durations, in nanoseconds.\<close>

type_synonym Time = int

definition nilHash :: Hash where
  "nilHash = replicate 32 0"

text \<open>\<^verbatim>\<open>Hash.String()\<close>: \<^verbatim>\<open>0x\<close> followed by two lower-case hex digits per byte.\<close>

definition hexdigit :: "nat \<Rightarrow> char" where
  "hexdigit n = ''0123456789abcdef'' ! (n mod 16)"

definition hex_byte :: "byte \<Rightarrow> string" where
  "hex_byte b = [hexdigit (unat b div 16), hexdigit (unat b mod 16)]"

definition Hash_String :: "Hash \<Rightarrow> string" where
  "Hash_String h = ''0x'' @ concat (map hex_byte h)"

text \<open>\<^verbatim>\<open>U256Str.String()\<close>: the decimal numeral of the value.\<close>

definition decdigit :: "nat \<Rightarrow> char" where
  "decdigit n = ''0123456789'' ! (n mod 10)"

function dec_String :: "nat \<Rightarrow> string" where
  "dec_String n = (if n < 10 then [decdigit n] else dec_String (n div 10) @ [decdigit n])"
  by pat_completeness auto
termination
  by (relation "measure (\<lambda>n. n)") auto

declare dec_String.simps [simp del]

definition U256Str_String :: "U256Str \<Rightarrow> string" where
  "U256Str_String v = dec_String (unat v)"

text \<open>\<^verbatim>\<open>strconv.ParseUint(s, 10, 64)\<close>: a non-empty string of decimal digits (no sign,
  no underscore) whose value fits 64 bits; anything else is an error.\<close>

definition isDigit :: "char \<Rightarrow> bool" where
  "isDigit c = (48 \<le> (of_char c :: nat) \<and> (of_char c :: nat) \<le> 57)"

definition digitVal :: "char \<Rightarrow> nat" where
  "digitVal c = of_char c - 48"

definition ParseUint :: "string \<Rightarrow> 64 word option" where
  "ParseUint s =
     (if s = [] then None
      else if \<not> list_all isDigit s then None
      else let n = foldl (\<lambda>a c. 10 * a + digitVal c) 0 s
           in if n < 2 ^ 64 then Some (word_of_nat n) else None)"

subsection \<open>Wire types (the fields the service reads)\<close>

record ExecutionPayloadHeader =
  ParentHash :: Hash
  BlockHash :: Hash
  BlockNumber :: "64 word"
  TransactionsRoot :: Hash

record BuilderBid =
  Header :: "ExecutionPayloadHeader option"
  Value :: U256Str
  Pubkey :: PublicKey

record SignedBuilderBid =
  Message :: "BuilderBid option"
  Signature :: Signature

text \<open>A pointer that may be \<^verbatim>\<open>nil\<close> is an \<open>option\<close>.\<close>

record GetHeaderResponse =
  Version :: string
  Data :: "SignedBuilderBid option"

text \<open>\<^verbatim>\<open>types.VerifySignature(msg, domain, pk, sig)\<close> returns \<^verbatim>\<open>(bool, error)\<close>; the BLS
  library is a parameter of the model.\<close>

type_synonym VerifySignature =
  "BuilderBid \<Rightarrow> Domain \<Rightarrow> PublicKey \<Rightarrow> Signature \<Rightarrow> string + bool"

text \<open>What \<^verbatim>\<open>SendHTTPRequest\<close> hands back: the status code, the error (if any) and the
  value decoded into \<^verbatim>\<open>dst\<close>.\<close>

record 'a http_result =
  code :: int
  err :: "string option"
  dst :: 'a

subsection \<open>Relay descriptor\<close>

text \<open>Modelled from the spec: \<^verbatim>\<open>RelayEntry\<close> (declared in another file of the repository):
  a base URL, the relay's public key, \<^verbatim>\<open>String()\<close> rendering the descriptor and
  \<^verbatim>\<open>GetURI(path)\<close> returning the base URL with the path appended.\<close>

record RelayEntry =
  PublicKey :: PublicKey
  URL :: string

definition RelayEntry_String :: "RelayEntry \<Rightarrow> string" where
  "RelayEntry_String r = URL r"

definition GetURI :: "RelayEntry \<Rightarrow> string \<Rightarrow> string" where
  "GetURI r path = URL r @ path"

definition pathStatus :: string where
  "pathStatus = ''/eth/v1/builder/status''"

definition pathRegisterValidator :: string where
  "pathRegisterValidator = ''/eth/v1/builder/validators''"

definition pathGetPayload :: string where
  "pathGetPayload = ''/eth/v1/builder/blinded_blocks''"

subsection \<open>The service and its bid cache\<close>

text \<open>The field \<^verbatim>\<open>t\<close> of \<^verbatim>\<open>bidResp\<close> is \<open>bid_t\<close> here.\<close>

record bidResp =
  bid_t :: Time
  response :: GetHeaderResponse
  blockHash :: string
  relays :: "string list"

text \<open>The zero value \<^verbatim>\<open>bidResp{}\<close>.\<close>

definition bidResp_zero :: bidResp where
  "bidResp_zero = \<lparr>bid_t = 0, response = \<lparr>Version = [], Data = None\<rparr>, blockHash = [], relays = []\<rparr>"

text \<open>The map \<^verbatim>\<open>bids\<close>, from \<^verbatim>\<open>bidRespKey\<close> (slot and block hash) to \<^verbatim>\<open>bidResp\<close>: a finite
  map, kept as an association list with one entry per key. A Go map read at a key it does
  not hold gives the zero value.\<close>

type_synonym bidRespKey = "64 word \<times> string"

type_synonym bids = "(bidRespKey \<times> bidResp) list"

definition bids_store :: "bidRespKey \<Rightarrow> bidResp \<Rightarrow> bids \<Rightarrow> bids" where
  "bids_store k v b = AList.update k v b"

definition bids_load :: "bidRespKey \<Rightarrow> bids \<Rightarrow> bidResp" where
  "bids_load k b = (case map_of b k of None \<Rightarrow> bidResp_zero | Some r \<Rightarrow> r)"

definition bids_delete :: "bidRespKey \<Rightarrow> bids \<Rightarrow> bids" where
  "bids_delete k b = AList.delete k b"

record BoostService =
  svc_relays :: "RelayEntry list"
  relayCheck :: bool
  builderSigningDomain :: Domain
  svc_bids :: bids

text \<open>An outbound request: method and URL.\<close>

type_synonym request = "string \<times> string"

text \<open>What a handler writes to the proposer: \<^verbatim>\<open>respondOK\<close> (200 with a JSON body),
  \<^verbatim>\<open>respondError\<close> (a code with a message) or a bare \<^verbatim>\<open>WriteHeader\<close>.\<close>

datatype 'b reply = RespondOK 'b | RespondError int string | WriteHeader int

fun status_code :: "'b reply \<Rightarrow> int" where
  "status_code (RespondOK _) = 200"
| "status_code (RespondError c _) = c"
| "status_code (WriteHeader c) = c"

definition StatusNoContent :: int where "StatusNoContent = 204"
definition StatusBadRequest :: int where "StatusBadRequest = 400"
definition StatusBadGateway :: int where "StatusBadGateway = 502"
definition StatusServiceUnavailable :: int where "StatusServiceUnavailable = 503"

definition errInvalidSlot :: string where "errInvalidSlot = ''invalid slot''"
definition errInvalidHash :: string where "errInvalidHash = ''invalid hash''"
definition errInvalidPubkey :: string where "errInvalidPubkey = ''invalid pubkey''"
definition errNoSuccessfulRelayResponse :: string where
  "errNoSuccessfulRelayResponse = ''no successful relay response''"

subsection \<open>handleGetHeader\<close>

text \<open>The acceptance checks of a relay goroutine, from the return of
  \<^verbatim>\<open>SendHTTPRequest\<close> to \<^verbatim>\<open>mu.Lock()\<close>: every early \<^verbatim>\<open>return\<close> is a \<open>drop\<close>; a bid
  that passes yields its \<^verbatim>\<open>blockHash\<close> string.\<close>

datatype drop =
  RequestError | NoContentResponse | InvalidPayload | PubkeyMismatch
  | SignatureError | SignatureInvalid | ParentHashMismatch | ZeroValueBid

definition emptyListTxRoot :: string where
  "emptyListTxRoot = ''0x7ffe241ea60187fdb0187bfa22de35d1f9bed7ab061d9401fd47e34a54fbede1''"

definition checkBid ::
  "VerifySignature \<Rightarrow> Domain \<Rightarrow> string \<Rightarrow> RelayEntry \<Rightarrow> GetHeaderResponse http_result \<Rightarrow> drop + string" where
  "checkBid vs sdom parentHashHex relay r =
     (if err r \<noteq> None then Inl RequestError
      else if code r = 204 then Inl NoContentResponse
      else case Data (dst r) of None \<Rightarrow> Inl InvalidPayload | Some d \<Rightarrow>
           (case Message d of None \<Rightarrow> Inl InvalidPayload | Some msg \<Rightarrow>
           (case Header msg of None \<Rightarrow> Inl InvalidPayload | Some h \<Rightarrow>
            if BlockHash h = nilHash then Inl InvalidPayload
            else if PublicKey relay \<noteq> Pubkey msg then Inl PubkeyMismatch
            else (case vs msg sdom (PublicKey relay) (Signature d) of
                   Inl e \<Rightarrow> Inl SignatureError
                 | Inr ok \<Rightarrow>
                     if \<not> ok then Inl SignatureInvalid
                     else if Hash_String (ParentHash h) \<noteq> parentHashHex then Inl ParentHashMismatch
                     else if U256Str_String (Value msg) = ''0''
                             \<or> Hash_String (TransactionsRoot h) = emptyListTxRoot
                          then Inl ZeroValueBid
                          else Inr (Hash_String (BlockHash h))))))"

text \<open>The state shared by the goroutines of one auction: the local variables
  \<^verbatim>\<open>relays\<close> and \<^verbatim>\<open>result\<close> of the handler.\<close>

record auction =
  auction_relays :: "string \<rightharpoonup> string list"
  auction_result :: bidResp

text \<open>\<^verbatim>\<open>r.Data.Message.Value\<close>; \<open>None\<close> stands for the nil dereference.\<close>

definition bidValue :: "GetHeaderResponse \<Rightarrow> U256Str option" where
  "bidValue r =
     (case Data r of None \<Rightarrow> None
      | Some d \<Rightarrow> (case Message d of None \<Rightarrow> None | Some msg \<Rightarrow> Some (Value msg)))"

text \<open>The critical section, from \<^verbatim>\<open>mu.Lock()\<close> to the end of the goroutine; \<open>now\<close> is
  what \<^verbatim>\<open>time.Now()\<close> reads there. \<open>None\<close> is a panic.\<close>

definition recordBid ::
  "RelayEntry \<Rightarrow> string \<Rightarrow> GetHeaderResponse \<Rightarrow> Time \<Rightarrow> auction \<Rightarrow> auction option" where
  "recordBid relay bh responsePayload now a =
     (let rs = (case auction_relays a bh of
                  None \<Rightarrow> (auction_relays a)(bh \<mapsto> [RelayEntry_String relay])
                | Some l \<Rightarrow> (auction_relays a)(bh \<mapsto> l @ [RelayEntry_String relay]));
          won = \<lparr>auction_relays = rs,
                 auction_result = (auction_result a)
                   \<lparr>response := responsePayload, blockHash := bh, bid_t := now\<rparr>\<rparr>
      in case Data (response (auction_result a)) of
           None \<Rightarrow> Some won
         | Some _ \<Rightarrow>
             (case (bidValue responsePayload, bidValue (response (auction_result a))) of
                (Some v, Some cur) \<Rightarrow> if v \<le> cur then Some (a\<lparr>auction_relays := rs\<rparr>) else Some won
              | _ \<Rightarrow> None))"

text \<open>One relay goroutine: the relay, what \<^verbatim>\<open>SendHTTPRequest\<close> returned to it, and its
  clock reading.\<close>

type_synonym header_task = "RelayEntry \<times> GetHeaderResponse http_result \<times> Time"

definition relayTask ::
  "VerifySignature \<Rightarrow> Domain \<Rightarrow> string \<Rightarrow> header_task \<Rightarrow> auction \<Rightarrow> auction option" where
  "relayTask vs sdom parentHashHex task a =
     (case task of (relay, r, now) \<Rightarrow>
        (case checkBid vs sdom parentHashHex relay r of
           Inl _ \<Rightarrow> Some a
         | Inr bh \<Rightarrow> recordBid relay bh (dst r) now a))"

text \<open>The value and the block hash of an accepted bid (\<open>None\<close> for a dropped one), for
  stating what an auction selects.\<close>

definition acceptedValue ::
  "VerifySignature \<Rightarrow> Domain \<Rightarrow> string \<Rightarrow> RelayEntry \<Rightarrow> GetHeaderResponse http_result \<Rightarrow> U256Str option" where
  "acceptedValue vs sdom parentHashHex relay r =
     (case checkBid vs sdom parentHashHex relay r of Inl _ \<Rightarrow> None | Inr _ \<Rightarrow> bidValue (dst r))"

definition acceptedHash ::
  "VerifySignature \<Rightarrow> Domain \<Rightarrow> string \<Rightarrow> RelayEntry \<Rightarrow> GetHeaderResponse http_result \<Rightarrow> string option" where
  "acceptedHash vs sdom parentHashHex relay r =
     (case checkBid vs sdom parentHashHex relay r of Inl _ \<Rightarrow> None | Inr bh \<Rightarrow> Some bh)"

text \<open>What the critical section leaves when the bid becomes the best one.\<close>

definition won :: "RelayEntry \<Rightarrow> string \<Rightarrow> GetHeaderResponse \<Rightarrow> Time \<Rightarrow> auction \<Rightarrow> auction" where
  "won relay bh rp now a = \<lparr>auction_relays = (auction_relays a)(bh \<mapsto> (case auction_relays a bh of None \<Rightarrow> [] | Some l \<Rightarrow> l) @ [RelayEntry_String relay]),
       auction_result = (auction_result a)\<lparr>response := rp, blockHash := bh, bid_t := now\<rparr>\<rparr>"

text \<open>The goroutines touch the shared state under \<^verbatim>\<open>mu\<close> only, so an auction is the
  sequence of the tasks in the order they take the mutex.\<close>

fun runTasks ::
  "VerifySignature \<Rightarrow> Domain \<Rightarrow> string \<Rightarrow> header_task list \<Rightarrow> auction \<Rightarrow> auction option" where
  "runTasks vs sdom parentHashHex [] a = Some a"
| "runTasks vs sdom parentHashHex (task # tasks) a =
     (case relayTask vs sdom parentHashHex task a of
        None \<Rightarrow> None
      | Some a' \<Rightarrow> runTasks vs sdom parentHashHex tasks a')"

text \<open>The auction state the handler starts from.\<close>

definition auction0 :: auction where
  "auction0 = \<lparr>auction_relays = Map.empty, auction_result = bidResp_zero\<rparr>"

definition getHeaderPath :: "string \<Rightarrow> string \<Rightarrow> string \<Rightarrow> string" where
  "getHeaderPath slot_str parentHashHex pubkey =
     ''/eth/v1/builder/header/'' @ slot_str @ ''/'' @ parentHashHex @ ''/'' @ pubkey"

text \<open>The handler. \<open>resp i\<close> and \<open>now i\<close> are the transport result and the clock reading
  of the goroutine of the relay at index \<open>i\<close>; \<open>order\<close> lists the relay indices in the
  order their goroutines take \<^verbatim>\<open>mu\<close> (a permutation of the indices). The result is the
  reply, the requests sent to relays and the service with its bid cache; \<open>None\<close> is a
  panic.\<close>

definition handleGetHeader ::
  "VerifySignature \<Rightarrow> BoostService \<Rightarrow> string \<Rightarrow> string \<Rightarrow> string
     \<Rightarrow> (nat \<Rightarrow> GetHeaderResponse http_result) \<Rightarrow> (nat \<Rightarrow> Time) \<Rightarrow> nat list
     \<Rightarrow> (GetHeaderResponse reply \<times> request list \<times> BoostService) option" where
  "handleGetHeader vs m slot_str parentHashHex pubkey resp now order =
     (case ParseUint slot_str of
        None \<Rightarrow> Some (RespondError StatusBadRequest errInvalidSlot, [], m)
      | Some slot_num \<Rightarrow>
          if length pubkey \<noteq> 98 then Some (RespondError StatusBadRequest errInvalidPubkey, [], m)
          else if length parentHashHex \<noteq> 66 then Some (RespondError StatusBadRequest errInvalidHash, [], m)
          else
            let sent = map (\<lambda>relay. (''GET'', GetURI relay (getHeaderPath slot_str parentHashHex pubkey)))
                           (svc_relays m);
                tasks = map (\<lambda>i. (svc_relays m ! i, resp i, now i)) order
            in (case runTasks vs (builderSigningDomain m) parentHashHex tasks
                      \<lparr>auction_relays = Map.empty, auction_result = bidResp_zero\<rparr> of
                 None \<Rightarrow> None
               | Some a \<Rightarrow>
                   if blockHash (auction_result a) = [] then Some (WriteHeader StatusNoContent, sent, m)
                   else
                     let result = (auction_result a)
                           \<lparr>relays := (case auction_relays a (blockHash (auction_result a)) of
                                         None \<Rightarrow> [] | Some l \<Rightarrow> l)\<rparr>
                     in Some (RespondOK (response result), sent,
                              m\<lparr>svc_bids := bids_store (slot_num, blockHash result) result (svc_bids m)\<rparr>)))"

text \<open>The accepted bid of the relay at index \<open>i\<close> in an auction of the service: its value
  and its block hash.\<close>

definition bidOf :: "VerifySignature \<Rightarrow> BoostService \<Rightarrow> string \<Rightarrow> (nat \<Rightarrow> GetHeaderResponse http_result) \<Rightarrow> nat \<Rightarrow> U256Str option" where
  "bidOf vs m parentHashHex resp i =
     acceptedValue vs (builderSigningDomain m) parentHashHex (svc_relays m ! i) (resp i)"

definition bidHashOf :: "VerifySignature \<Rightarrow> BoostService \<Rightarrow> string \<Rightarrow> (nat \<Rightarrow> GetHeaderResponse http_result) \<Rightarrow> nat \<Rightarrow> string option" where
  "bidHashOf vs m parentHashHex resp i =
     acceptedHash vs (builderSigningDomain m) parentHashHex (svc_relays m ! i) (resp i)"

subsection \<open>CheckRelays\<close>

text \<open>The loop of \<^verbatim>\<open>CheckRelays\<close> over the relays from index \<open>i\<close> on: \<open>send i\<close> is
  the error \<^verbatim>\<open>SendHTTPRequest\<close> returns for the relay at index \<open>i\<close>. The result is the
  verdict and the requests sent, in order.\<close>

fun CheckRelays_loop :: "(nat \<Rightarrow> string option) \<Rightarrow> nat \<Rightarrow> RelayEntry list \<Rightarrow> bool \<times> request list" where
  "CheckRelays_loop send i [] = (True, [])"
| "CheckRelays_loop send i (relay # rest) =
     (let url = GetURI relay pathStatus in
      case send i of
        Some e \<Rightarrow> (False, [(''GET'', url)])
      | None \<Rightarrow> (let (ok, sent) = CheckRelays_loop send (Suc i) rest in (ok, (''GET'', url) # sent)))"

definition CheckRelays :: "BoostService \<Rightarrow> (nat \<Rightarrow> string option) \<Rightarrow> bool \<times> request list" where
  "CheckRelays m send = CheckRelays_loop send 0 (svc_relays m)"

subsection \<open>Goroutines and schedules\<close>

text \<open>The other handlers are modelled as transition systems. Every goroutine of a handler has a
  program counter; an event lets one goroutine (the task of the relay at an index, or the
  handler itself) take its next atomic step, and a step that is not enabled (a blocked
  \<^verbatim>\<open>Lock\<close>, a \<^verbatim>\<open>Wait\<close> with tasks still running) leaves the state as it is. A schedule is a list of
  events; a property of every interleaving is a property of the state after every
  schedule.\<close>

datatype event = Task nat | Handler

definition run :: "('e \<Rightarrow> 's \<Rightarrow> 's) \<Rightarrow> 'e list \<Rightarrow> 's \<Rightarrow> 's" where
  "run step es s = foldl (\<lambda>s e. step e s) s es"

subsection \<open>handleStatus\<close>

text \<open>The goroutine of a relay: \<open>SSend\<close> before \<^verbatim>\<open>SendHTTPRequest\<close> has returned and the guard
  \<^verbatim>\<open>err != nil && ctx.Err() != context.Canceled\<close> is evaluated, \<open>SAdd\<close> before
  \<^verbatim>\<open>atomic.AddUint32\<close>, \<open>SCancel\<close> before \<^verbatim>\<open>cancel()\<close>; it ends in \<open>SFailed\<close> (the \<^verbatim>\<open>return\<close>
  under the guard) or \<open>SDone\<close>.\<close>

datatype status_pc = SSend | SAdd | SCancel | SFailed | SDone

record status_state =
  st_pcs :: "status_pc list"
  numSuccessRequestsToRelay :: "32 word"
  st_cancelled :: bool
  st_sent :: "request list"
  st_reply :: "unit reply option"

definition errAllRelaysUnavailable :: string where
  "errAllRelaysUnavailable = ''all relays are unavailable''"

text \<open>\<open>send i\<close> is the error \<^verbatim>\<open>SendHTTPRequest\<close> returns to the goroutine of relay \<open>i\<close>
  (\<open>None\<close> for \<^verbatim>\<open>nil\<close>). The context has no deadline, so \<^verbatim>\<open>ctx.Err()\<close> is
  \<^verbatim>\<open>context.Canceled\<close> once cancelled and \<^verbatim>\<open>nil\<close> before.\<close>

definition status_task ::
  "BoostService \<Rightarrow> (nat \<Rightarrow> string option) \<Rightarrow> nat \<Rightarrow> status_state \<Rightarrow> status_state" where
  "status_task m send i s =
     (case st_pcs s ! i of
        SSend \<Rightarrow>
          (let s' = s\<lparr>st_sent := st_sent s @ [(''GET'', GetURI (svc_relays m ! i) pathStatus)]\<rparr>
           in if send i \<noteq> None \<and> \<not> st_cancelled s
              then s'\<lparr>st_pcs := (st_pcs s)[i := SFailed]\<rparr>
              else s'\<lparr>st_pcs := (st_pcs s)[i := SAdd]\<rparr>)
      | SAdd \<Rightarrow> s\<lparr>numSuccessRequestsToRelay := numSuccessRequestsToRelay s + 1,
                  st_pcs := (st_pcs s)[i := SCancel]\<rparr>
      | SCancel \<Rightarrow> s\<lparr>st_cancelled := True, st_pcs := (st_pcs s)[i := SDone]\<rparr>
      | SFailed \<Rightarrow> s
      | SDone \<Rightarrow> s)"

text \<open>The handler after the loop: \<^verbatim>\<open>wg.Wait()\<close> returns when every goroutine has ended; then
  the reply is written and the deferred \<^verbatim>\<open>cancel()\<close> runs.\<close>

definition status_handler :: "status_state \<Rightarrow> status_state" where
  "status_handler s =
     (if st_reply s = None \<and> list_all (\<lambda>p. p = SFailed \<or> p = SDone) (st_pcs s)
      then s\<lparr>st_reply := Some (if numSuccessRequestsToRelay s > 0 then RespondOK ()
                               else RespondError StatusServiceUnavailable errAllRelaysUnavailable),
             st_cancelled := True\<rparr>
      else s)"

definition status_step ::
  "BoostService \<Rightarrow> (nat \<Rightarrow> string option) \<Rightarrow> event \<Rightarrow> status_state \<Rightarrow> status_state" where
  "status_step m send e s =
     (case e of
        Task i \<Rightarrow> if i < length (st_pcs s) then status_task m send i s else s
      | Handler \<Rightarrow> status_handler s)"

text \<open>The state a schedule leaves. With \<^verbatim>\<open>relayCheck\<close> off the handler replies at once and
  starts no goroutine.\<close>

definition handleStatus ::
  "BoostService \<Rightarrow> (nat \<Rightarrow> string option) \<Rightarrow> event list \<Rightarrow> status_state" where
  "handleStatus m send es =
     (if \<not> relayCheck m
      then \<lparr>st_pcs = [], numSuccessRequestsToRelay = 0, st_cancelled = False, st_sent = [],
            st_reply = Some (RespondOK ())\<rparr>
      else run (status_step m send) es
             \<lparr>st_pcs = replicate (length (svc_relays m)) SSend, numSuccessRequestsToRelay = 0,
              st_cancelled = False, st_sent = [], st_reply = None\<rparr>)"

text \<open>A schedule that lets every goroutine run to its end, one after the other, and then the
  handler.\<close>

definition finish :: "nat \<Rightarrow> nat \<Rightarrow> event list" where
  "finish k n = concat (map (\<lambda>i. replicate k (Task i)) [0..<n]) @ [Handler]"

subsection \<open>handleGetPayload\<close>

text \<open>The decoded request, \<^verbatim>\<open>*types.SignedBlindedBeaconBlock\<close>, with the fields the handler
  reads. Its \<^verbatim>\<open>Message\<close>, the message's \<^verbatim>\<open>Body\<close> and the body's \<^verbatim>\<open>ExecutionPayloadHeader\<close>
  are pointers, \<open>None\<close> when nil: the JSON decoder leaves a pointer nil when the body of
  the request does not have the field (as in \<^verbatim>\<open>{}\<close>), and \<^verbatim>\<open>payload\<close> itself is a pointer. The
  fields are \<open>sbb_Message\<close>, \<open>msg_Slot\<close>, \<open>msg_Body\<close> and \<open>body_ExecutionPayloadHeader\<close> here.\<close>

record BlindedBeaconBlockBody =
  body_ExecutionPayloadHeader :: "ExecutionPayloadHeader option"

record BlindedBeaconBlock =
  msg_Slot :: "64 word"
  msg_Body :: "BlindedBeaconBlockBody option"

record SignedBlindedBeaconBlock =
  sbb_Message :: "BlindedBeaconBlock option"

text \<open>The two values the handler and its goroutines read from the request:
  \<^verbatim>\<open>payload.Message.Slot\<close> and \<^verbatim>\<open>payload.Message.Body.ExecutionPayloadHeader.BlockHash\<close>.\<close>

record blockRef =
  blk_Slot :: "64 word"
  blk_BlockHash :: Hash

text \<open>Following the pointers, as the handler first does for the field \<^verbatim>\<open>blockHash\<close> of its
  logger, before any goroutine is started: \<open>None\<close> is the run-time panic of a nil pointer
  dereference (no pointer is tested before). The request is not assigned to afterwards, so
  the later reads of the same pointers give the same values.\<close>

definition requestRef :: "SignedBlindedBeaconBlock option \<Rightarrow> blockRef option" where
  "requestRef payload =
     (case payload of
        None \<Rightarrow> None
      | Some signedBlock \<Rightarrow>
          (case sbb_Message signedBlock of
             None \<Rightarrow> None
           | Some msg \<Rightarrow>
               (case msg_Body msg of
                  None \<Rightarrow> None
                | Some body \<Rightarrow>
                    (case body_ExecutionPayloadHeader body of
                       None \<Rightarrow> None
                     | Some h \<Rightarrow> Some \<lparr>blk_Slot = msg_Slot msg, blk_BlockHash = BlockHash h\<rparr>))))"

text \<open>A relay's response (\<^verbatim>\<open>Data.BlockHash\<close>).\<close>

record ExecutionPayload =
  pl_BlockHash :: Hash

record GetPayloadResponse =
  pl_Version :: string
  pl_Data :: "ExecutionPayload option"

text \<open>\<^verbatim>\<open>strings.Join\<close>.\<close>

fun Join :: "string list \<Rightarrow> string \<Rightarrow> string" where
  "Join [] sep = []"
| "Join [x] sep = x"
| "Join (x # y # ys) sep = x @ sep @ Join (y # ys) sep"

text \<open>The checks of a relay goroutine on what \<^verbatim>\<open>SendHTTPRequest\<close> returned, up to
  \<^verbatim>\<open>mu.Lock()\<close>: \<open>False\<close> is an early \<^verbatim>\<open>return\<close>. Here and below \<open>payload\<close> is the slot and
  the block hash that the pointers of the request lead to.\<close>

definition checkPayload :: "blockRef \<Rightarrow> GetPayloadResponse http_result \<Rightarrow> bool" where
  "checkPayload payload r =
     (if err r \<noteq> None then False
      else case pl_Data (dst r) of
             None \<Rightarrow> False
           | Some d \<Rightarrow>
               if pl_BlockHash d = nilHash then False
               else if blk_BlockHash payload \<noteq> pl_BlockHash d then False
               else True)"

text \<open>The goroutine of a relay: \<open>PSend\<close> before \<^verbatim>\<open>SendHTTPRequest\<close> has returned and the
  response is checked, \<open>PLockWait\<close> at \<^verbatim>\<open>mu.Lock()\<close>, \<open>PLocked\<close> holding the mutex before the
  test of \<^verbatim>\<open>requestCtx.Err()\<close>, \<open>PCancel\<close> before \<^verbatim>\<open>requestCtxCancel()\<close>, \<open>PWrite\<close> before
  the assignment to \<^verbatim>\<open>*result\<close> (followed by the deferred \<^verbatim>\<open>Unlock\<close> and \<^verbatim>\<open>Done\<close>), \<open>PDone\<close>
  at its end.\<close>

datatype payload_pc = PSend | PLockWait | PLocked | PCancel | PWrite | PDone

record payload_state =
  gp_pcs :: "payload_pc list"
  gp_mu :: "nat option"
  gp_cancelled :: bool
  gp_result :: GetPayloadResponse
  gp_sent :: "request list"
  gp_reply :: "GetPayloadResponse reply option"
  gp_log :: "string option"
  gp_panicked :: bool

text \<open>\<open>gp_mu\<close> is the goroutine that holds the mutex, if any, \<open>gp_cancelled\<close> that \<^verbatim>\<open>requestCtx\<close> is cancelled,
  \<open>gp_log\<close> is the \<^verbatim>\<open>relays\<close> field of the error line logged when no payload was received,
  \<open>gp_panicked\<close> that the handler has ended in a run-time panic.
  \<open>resp i\<close> is what \<^verbatim>\<open>SendHTTPRequest\<close> returns to the goroutine of relay \<open>i\<close>.\<close>

definition payload_task ::
  "BoostService \<Rightarrow> blockRef \<Rightarrow> (nat \<Rightarrow> GetPayloadResponse http_result)
     \<Rightarrow> nat \<Rightarrow> payload_state \<Rightarrow> payload_state" where
  "payload_task m payload resp i s =
     (case gp_pcs s ! i of
        PSend \<Rightarrow>
          (let s' = s\<lparr>gp_sent := gp_sent s @ [(''POST'', GetURI (svc_relays m ! i) pathGetPayload)]\<rparr>
           in if checkPayload payload (resp i)
              then s'\<lparr>gp_pcs := (gp_pcs s)[i := PLockWait]\<rparr>
              else s'\<lparr>gp_pcs := (gp_pcs s)[i := PDone]\<rparr>)
      | PLockWait \<Rightarrow>
          if gp_mu s \<noteq> None then s else s\<lparr>gp_mu := Some i, gp_pcs := (gp_pcs s)[i := PLocked]\<rparr>
      | PLocked \<Rightarrow>
          if gp_cancelled s then s\<lparr>gp_mu := None, gp_pcs := (gp_pcs s)[i := PDone]\<rparr>
          else s\<lparr>gp_pcs := (gp_pcs s)[i := PCancel]\<rparr>
      | PCancel \<Rightarrow> s\<lparr>gp_cancelled := True, gp_pcs := (gp_pcs s)[i := PWrite]\<rparr>
      | PWrite \<Rightarrow> s\<lparr>gp_result := dst (resp i), gp_mu := None, gp_pcs := (gp_pcs s)[i := PDone]\<rparr>
      | PDone \<Rightarrow> s)"

text \<open>The handler after \<^verbatim>\<open>wg.Wait()\<close>: the reply and, when no payload was received, the
  logged relays of the bid record looked up in the cache.\<close>

definition payload_reply ::
  "bids \<Rightarrow> blockRef \<Rightarrow> GetPayloadResponse \<Rightarrow> GetPayloadResponse reply \<times> string option" where
  "payload_reply b payload result =
     (if (case pl_Data result of None \<Rightarrow> True | Some d \<Rightarrow> pl_BlockHash d = nilHash)
      then (let originalResp = bids_load (blk_Slot payload, Hash_String (blk_BlockHash payload)) b
            in (RespondError StatusBadGateway errNoSuccessfulRelayResponse,
                Some (Join (relays originalResp) '', '')))
      else (RespondOK result, None))"

definition payload_handler ::
  "BoostService \<Rightarrow> blockRef \<Rightarrow> payload_state \<Rightarrow> payload_state" where
  "payload_handler m payload s =
     (if gp_reply s = None \<and> list_all (\<lambda>p. p = PDone) (gp_pcs s)
      then s\<lparr>gp_reply := Some (fst (payload_reply (svc_bids m) payload (gp_result s))),
             gp_log := snd (payload_reply (svc_bids m) payload (gp_result s)),
             gp_cancelled := True\<rparr>
      else s)"

definition payload_step ::
  "BoostService \<Rightarrow> blockRef \<Rightarrow> (nat \<Rightarrow> GetPayloadResponse http_result)
     \<Rightarrow> event \<Rightarrow> payload_state \<Rightarrow> payload_state" where
  "payload_step m payload resp e s =
     (case e of
        Task i \<Rightarrow> if i < length (gp_pcs s) then payload_task m payload resp i s else s
      | Handler \<Rightarrow> payload_handler m payload s)"

definition payload_init :: "nat \<Rightarrow> payload_state" where
  "payload_init n =
     \<lparr>gp_pcs = replicate n PSend, gp_mu = None, gp_cancelled = False,
      gp_result = \<lparr>pl_Version = [], pl_Data = None\<rparr>, gp_sent = [], gp_reply = None, gp_log = None,
      gp_panicked = False\<rparr>"

text \<open>The state a schedule leaves; \<open>decoded\<close> is the result of \<^verbatim>\<open>DecodeJSON\<close> on the request
  body (\<open>Inl\<close> its error, answered 400 before any goroutine starts, \<open>Inr\<close> the pointer
  \<^verbatim>\<open>payload\<close> it has filled). The handler then follows the pointers of the request: a nil
  one ends it in a panic, with no goroutine started, no request sent to a relay and no
  reply written by the handler.\<close>

definition handleGetPayload ::
  "BoostService \<Rightarrow> string + SignedBlindedBeaconBlock option \<Rightarrow> (nat \<Rightarrow> GetPayloadResponse http_result)
     \<Rightarrow> event list \<Rightarrow> payload_state" where
  "handleGetPayload m decoded resp es =
     (case decoded of
        Inl e \<Rightarrow> (payload_init 0)\<lparr>gp_reply := Some (RespondError StatusBadRequest e)\<rparr>
      | Inr payload \<Rightarrow>
          (case requestRef payload of
             None \<Rightarrow> (payload_init 0)\<lparr>gp_panicked := True\<rparr>
           | Some blk \<Rightarrow>
               run (payload_step m blk resp) es (payload_init (length (svc_relays m)))))"

subsection \<open>handleRegisterValidator\<close>

text \<open>The goroutine of a relay: \<open>RSend\<close> before \<^verbatim>\<open>SendHTTPRequest\<close> has returned, \<open>RPush\<close> at the
  send of its error on \<^verbatim>\<open>relayRespCh\<close>, \<open>RDone\<close> after it. The channel is a queue of capacity
  \<^verbatim>\<open>len(m.relays)\<close>: a send blocks while it is full, a receive while it is empty.\<close>

datatype register_pc = RSend | RPush | RDone

record register_state =
  rv_pcs :: "register_pc list"
  relayRespCh :: "string option list"
  rv_i :: nat
  rv_sent :: "request list"
  rv_reply :: "unit reply option"

text \<open>\<open>send i\<close> is the error \<^verbatim>\<open>SendHTTPRequest\<close> returns to the goroutine of relay \<open>i\<close>. Each
  request is made with \<^verbatim>\<open>context.Background()\<close>: nothing cancels it.\<close>

definition register_task ::
  "BoostService \<Rightarrow> (nat \<Rightarrow> string option) \<Rightarrow> nat \<Rightarrow> register_state \<Rightarrow> register_state" where
  "register_task m send i s =
     (case rv_pcs s ! i of
        RSend \<Rightarrow> s\<lparr>rv_sent := rv_sent s @ [(''POST'', GetURI (svc_relays m ! i) pathRegisterValidator)],
                    rv_pcs := (rv_pcs s)[i := RPush]\<rparr>
      | RPush \<Rightarrow>
          if length (relayRespCh s) < length (svc_relays m)
          then s\<lparr>relayRespCh := relayRespCh s @ [send i], rv_pcs := (rv_pcs s)[i := RDone]\<rparr>
          else s
      | RDone \<Rightarrow> s)"

text \<open>The handler's loop \<^verbatim>\<open>for i := 0; i < len(m.relays); i++\<close>: one step receives one value,
  and replies 200 if it is \<^verbatim>\<open>nil\<close>; past the loop the reply is 502.\<close>

definition register_handler :: "BoostService \<Rightarrow> register_state \<Rightarrow> register_state" where
  "register_handler m s =
     (if rv_reply s \<noteq> None then s
      else if rv_i s < length (svc_relays m)
      then (case relayRespCh s of
              [] \<Rightarrow> s
            | respErr # rest \<Rightarrow>
                if respErr = None then s\<lparr>relayRespCh := rest, rv_reply := Some (RespondOK ())\<rparr>
                else s\<lparr>relayRespCh := rest, rv_i := rv_i s + 1\<rparr>)
      else s\<lparr>rv_reply := Some (RespondError StatusBadGateway errNoSuccessfulRelayResponse)\<rparr>)"

definition register_step ::
  "BoostService \<Rightarrow> (nat \<Rightarrow> string option) \<Rightarrow> event \<Rightarrow> register_state \<Rightarrow> register_state" where
  "register_step m send e s =
     (case e of
        Task i \<Rightarrow> if i < length (rv_pcs s) then register_task m send i s else s
      | Handler \<Rightarrow> register_handler m s)"

definition register_init :: "nat \<Rightarrow> register_state" where
  "register_init n =
     \<lparr>rv_pcs = replicate n RSend, relayRespCh = [], rv_i = 0, rv_sent = [], rv_reply = None\<rparr>"

text \<open>The state a schedule leaves; \<open>decoded\<close> is the result of \<^verbatim>\<open>DecodeJSON\<close> on the request
  body (\<open>Inl\<close> its error, answered 400 before any goroutine starts).\<close>

definition handleRegisterValidator ::
  "BoostService \<Rightarrow> string + 'p \<Rightarrow> (nat \<Rightarrow> string option) \<Rightarrow> event list \<Rightarrow> register_state" where
  "handleRegisterValidator m decoded send es =
     (case decoded of
        Inl e \<Rightarrow> (register_init 0)\<lparr>rv_reply := Some (RespondError StatusBadRequest e)\<rparr>
      | Inr payload \<Rightarrow> run (register_step m send) es (register_init (length (svc_relays m))))"

subsection \<open>The bid cache: sweeper, store and load under bidsLock\<close>

text \<open>The goroutines that touch \<^verbatim>\<open>m.bids\<close>: the sweeper \<^verbatim>\<open>startBidCacheCleanupTask\<close>, which
  loops for ever, and clients, each doing one of the two other accesses of the source: the
  store at the end of \<^verbatim>\<open>handleGetHeader\<close> and the load in \<^verbatim>\<open>handleGetPayload\<close>. All three are
  \<^verbatim>\<open>Lock\<close>, the access, \<^verbatim>\<open>Unlock\<close>. The state has the clock, in nanoseconds.\<close>

definition Minute :: Time where
  "Minute = 60 * 1000000000"

datatype owner = OwnSweeper | OwnClient nat

text \<open>The sweeper: \<open>SStart\<close> at the head of the loop, \<open>SSleep u\<close> inside \<^verbatim>\<open>time.Sleep\<close> until the
  clock reaches \<open>u\<close>, \<open>SLock\<close> at \<^verbatim>\<open>Lock\<close>, \<open>SRange ks\<close> inside the \<^verbatim>\<open>range\<close> loop with the keys
  \<open>ks\<close> still to visit, \<open>SUnlock\<close> at \<^verbatim>\<open>Unlock\<close>.\<close>

datatype sweeper_pc = SStart | SSleep Time | SLock | SRange "bidRespKey list" | SUnlock

datatype cache_op = Store bidRespKey bidResp | Load bidRespKey

datatype client_pc = CLock | CBody | CUnlock | CDone

record cache_client =
  cl_op :: cache_op
  cl_pc :: client_pc
  cl_loaded :: "bidResp option"

record cache_state =
  cs_now :: Time
  bidsLock :: "owner option"
  cs_bids :: bids
  cs_sweeper :: sweeper_pc
  cs_clients :: "cache_client list"

text \<open>One step of the sweeper. \<^verbatim>\<open>time.Sleep(d)\<close> returns once at least \<open>d\<close> has passed;
  \<^verbatim>\<open>time.Since(t)\<close> is the clock minus \<open>t\<close> (it saturates only beyond 292 years, far above
  the three minutes it is compared with). The \<^verbatim>\<open>range\<close> loop visits the keys the map has
  when the loop starts.\<close>

definition sweeper_step :: "cache_state \<Rightarrow> cache_state" where
  "sweeper_step s =
     (case cs_sweeper s of
        SStart \<Rightarrow> s\<lparr>cs_sweeper := SSleep (cs_now s + 1 * Minute)\<rparr>
      | SSleep u \<Rightarrow> if u \<le> cs_now s then s\<lparr>cs_sweeper := SLock\<rparr> else s
      | SLock \<Rightarrow>
          if bidsLock s = None
          then s\<lparr>bidsLock := Some OwnSweeper, cs_sweeper := SRange (map fst (cs_bids s))\<rparr>
          else s
      | SRange [] \<Rightarrow> s\<lparr>cs_sweeper := SUnlock\<rparr>
      | SRange (k # ks) \<Rightarrow>
          (case map_of (cs_bids s) k of
             None \<Rightarrow> s\<lparr>cs_sweeper := SRange ks\<rparr>
           | Some bidResp \<Rightarrow>
               if cs_now s - bid_t bidResp > 3 * Minute
               then s\<lparr>cs_bids := bids_delete k (cs_bids s), cs_sweeper := SRange ks\<rparr>
               else s\<lparr>cs_sweeper := SRange ks\<rparr>)
      | SUnlock \<Rightarrow> s\<lparr>bidsLock := None, cs_sweeper := SStart\<rparr>)"

text \<open>One step of a client.\<close>

definition client_step :: "nat \<Rightarrow> cache_state \<Rightarrow> cache_state" where
  "client_step i s =
     (let c = cs_clients s ! i in
      case cl_pc c of
        CLock \<Rightarrow>
          if bidsLock s = None
          then s\<lparr>bidsLock := Some (OwnClient i), cs_clients := (cs_clients s)[i := c\<lparr>cl_pc := CBody\<rparr>]\<rparr>
          else s
      | CBody \<Rightarrow>
          (case cl_op c of
             Store k v \<Rightarrow> s\<lparr>cs_bids := bids_store k v (cs_bids s),
                              cs_clients := (cs_clients s)[i := c\<lparr>cl_pc := CUnlock\<rparr>]\<rparr>
           | Load k \<Rightarrow> s\<lparr>cs_clients := (cs_clients s)
                             [i := c\<lparr>cl_pc := CUnlock, cl_loaded := Some (bids_load k (cs_bids s))\<rparr>]\<rparr>)
      | CUnlock \<Rightarrow> s\<lparr>bidsLock := None, cs_clients := (cs_clients s)[i := c\<lparr>cl_pc := CDone\<rparr>]\<rparr>
      | CDone \<Rightarrow> s)"

text \<open>The events: the clock advances by a number of nanoseconds, the sweeper takes a step,
  a client takes a step.\<close>

datatype cache_event = Tick nat | SweeperStep | ClientStep nat

definition cache_step :: "cache_event \<Rightarrow> cache_state \<Rightarrow> cache_state" where
  "cache_step e s =
     (case e of
        Tick d \<Rightarrow> s\<lparr>cs_now := cs_now s + int d\<rparr>
      | SweeperStep \<Rightarrow> sweeper_step s
      | ClientStep i \<Rightarrow> if i < length (cs_clients s) then client_step i s else s)"

text \<open>The service at time \<open>t0\<close> with cache \<open>b\<close>, the sweeper just started and clients about to
  do the operations \<open>ops\<close>; and the state a schedule leaves.\<close>

definition cache_init :: "Time \<Rightarrow> bids \<Rightarrow> cache_op list \<Rightarrow> cache_state" where
  "cache_init t0 b ops =
     \<lparr>cs_now = t0, bidsLock = None, cs_bids = b, cs_sweeper = SStart,
      cs_clients = map (\<lambda>op. \<lparr>cl_op = op, cl_pc = CLock, cl_loaded = None\<rparr>) ops\<rparr>"

definition cache_run :: "Time \<Rightarrow> bids \<Rightarrow> cache_op list \<Rightarrow> cache_event list \<Rightarrow> cache_state" where
  "cache_run t0 b ops es = run cache_step es (cache_init t0 b ops)"

section \<open>A concrete configuration\<close>

text \<open>Two relays, a toy signature scheme (the signature of a message is the public key
  twice) and an auction in which the first relay bids 1 and the second bids 2.\<close>

lemma length_Hash_String: "length (Hash_String h) = 2 + 2 * length h"
  by (induction h) (simp_all add: Hash_String_def hex_byte_def)

definition example_verify :: VerifySignature where
  "example_verify msg sdom pk sg = (if length sg \<noteq> 96 then Inl ''bad signature length'' else Inr (sg = pk @ pk))"

definition relay1 :: RelayEntry where
  "relay1 = \<lparr>PublicKey = replicate 48 1, URL = ''http://relay1''\<rparr>"

definition relay2 :: RelayEntry where
  "relay2 = \<lparr>PublicKey = replicate 48 2, URL = ''http://relay2''\<rparr>"

definition example_parent :: Hash where
  "example_parent = replicate 32 17"

definition example_hashA :: Hash where "example_hashA = replicate 32 170"
definition example_hashB :: Hash where "example_hashB = replicate 32 187"

definition example_bid :: "RelayEntry \<Rightarrow> Hash \<Rightarrow> U256Str \<Rightarrow> GetHeaderResponse http_result" where
  "example_bid relay bh v =
     \<lparr>code = 200, err = None,
      dst = \<lparr>Version = ''bellatrix'',
             Data = Some \<lparr>Message = Some \<lparr>Header = Some \<lparr>ParentHash = example_parent, BlockHash = bh,
                                                        BlockNumber = 7, TransactionsRoot = replicate 32 34\<rparr>,
                                         Value = v, Pubkey = PublicKey relay\<rparr>,
                         Signature = PublicKey relay @ PublicKey relay\<rparr>\<rparr>\<rparr>"

definition example_service :: BoostService where
  "example_service = \<lparr>svc_relays = [relay1, relay2], relayCheck = True,
                      builderSigningDomain = replicate 32 0, svc_bids = []\<rparr>"

definition example_pubkey :: string where
  "example_pubkey = ''0x'' @ replicate 96 (CHR ''a'')"

definition example_resp :: "nat \<Rightarrow> GetHeaderResponse http_result" where
  "example_resp i = (if i = 0 then example_bid relay1 example_hashA 1 else example_bid relay2 example_hashB 2)"

definition example_now :: "nat \<Rightarrow> Time" where
  "example_now i = 1000 + int i"

lemma example_parse: "ParseUint ''42'' = Some 42"
  by (simp add: ParseUint_def isDigit_def digitVal_def)

lemma example_lengths: "length example_pubkey = 98" "length (Hash_String example_parent) = 66"
  by code_simp+

lemma example_order: "set [0, 1::nat] = {..<length (svc_relays example_service)}"
  by (auto simp: example_service_def)

lemma example_bidOf:
  "bidOf example_verify example_service (Hash_String example_parent) example_resp 0 = Some 1"
  "bidOf example_verify example_service (Hash_String example_parent) example_resp 1 = Some 2"
  unfolding bidOf_def by code_simp+

lemma example_bidHashOf:
  "bidHashOf example_verify example_service (Hash_String example_parent) example_resp 0 = Some (Hash_String example_hashA)"
  "bidHashOf example_verify example_service (Hash_String example_parent) example_resp 1 = Some (Hash_String example_hashB)"
  unfolding bidHashOf_def by code_simp+

section \<open>Verification\<close>

subsection \<open>Encoders and acceptance checks\<close>

lemma dec_String_nonempty: "dec_String n \<noteq> []"
  by (subst dec_String.simps) simp

lemma decdigit_zero: "n < 10 \<Longrightarrow> decdigit n = CHR ''0'' \<longleftrightarrow> n = 0"
proof -
  assume "n < 10"
  then have "n \<in> {0, 1, 2, 3, 4, 5, 6, 7, 8, 9}" by auto
  then show ?thesis by (auto simp: decdigit_def)
qed

lemma dec_String_zero: "dec_String n = ''0'' \<longleftrightarrow> n = 0"
proof (cases "n < 10")
  case True
  then show ?thesis by (subst dec_String.simps) (simp add: decdigit_zero)
next
  case False
  have "dec_String n = dec_String (n div 10) @ [decdigit n]"
    using False by (subst dec_String.simps) simp
  moreover have "dec_String (n div 10) \<noteq> []" by (rule dec_String_nonempty)
  ultimately have "length (dec_String n) \<ge> 2"
    by (cases "dec_String (n div 10)") simp_all
  with False show ?thesis by auto
qed

lemma U256Str_String_zero: "U256Str_String v = ''0'' \<longleftrightarrow> v = 0"
  by (simp add: U256Str_String_def dec_String_zero unat_eq_0)

lemma Hash_String_nonempty: "Hash_String h \<noteq> []"
  by (simp add: Hash_String_def)

lemma checkBid_Inr:
  assumes "checkBid vs sdom ph relay r = Inr bh"
  shows "\<exists>d msg h. Data (dst r) = Some d \<and> Message d = Some msg \<and> Header msg = Some h
           \<and> err r = None \<and> code r \<noteq> 204 \<and> BlockHash h \<noteq> nilHash
           \<and> Pubkey msg = PublicKey relay
           \<and> vs msg sdom (PublicKey relay) (Signature d) = Inr True
           \<and> Hash_String (ParentHash h) = ph
           \<and> U256Str_String (Value msg) \<noteq> ''0''
           \<and> Hash_String (TransactionsRoot h) \<noteq> emptyListTxRoot
           \<and> bh = Hash_String (BlockHash h)"
  using assms unfolding checkBid_def
  by (auto split: if_splits option.splits sum.splits)

lemma accepted_both:
  "(\<exists>v. acceptedValue vs sdom ph relay r = Some v) \<longleftrightarrow> (\<exists>bh. acceptedHash vs sdom ph relay r = Some bh)"
  unfolding acceptedValue_def acceptedHash_def
  by (auto split: sum.splits dest!: checkBid_Inr simp: bidValue_def)


lemma runTasks_append:
  "runTasks vs sdom ph (xs @ ys) a =
     (case runTasks vs sdom ph xs a of None \<Rightarrow> None | Some a' \<Rightarrow> runTasks vs sdom ph ys a')"
  by (induction xs arbitrary: a) (auto split: option.splits)

lemma relayTask_dropped:
  "acceptedValue vs sdom ph relay r = None \<Longrightarrow> relayTask vs sdom ph (relay, r, now) a = Some a"
  unfolding acceptedValue_def relayTask_def
  by (auto split: sum.splits dest!: checkBid_Inr simp: bidValue_def)

lemma acceptedValue_Some:
  assumes "acceptedValue vs sdom ph relay r = Some v"
  shows "\<exists>bh. checkBid vs sdom ph relay r = Inr bh \<and> acceptedHash vs sdom ph relay r = Some bh
           \<and> bidValue (dst r) = Some v \<and> Data (dst r) \<noteq> None \<and> bh \<noteq> []"
  using assms unfolding acceptedValue_def acceptedHash_def
  by (auto split: sum.splits dest!: checkBid_Inr simp: bidValue_def Hash_String_nonempty)

lemma relayTask_first:
  assumes "acceptedValue vs sdom ph relay r = Some v" "acceptedHash vs sdom ph relay r = Some bh"
    and "Data (response (auction_result a)) = None"
  shows "relayTask vs sdom ph (relay, r, now) a = Some (won relay bh (dst r) now a)"
  using acceptedValue_Some[OF assms(1)] assms(2,3)
  unfolding relayTask_def recordBid_def won_def
  by (auto simp: Let_def split: option.splits)

lemma relayTask_later:
  assumes "acceptedValue vs sdom ph relay r = Some v" "acceptedHash vs sdom ph relay r = Some bh"
    and "Data (response (auction_result a)) \<noteq> None" "bidValue (response (auction_result a)) = Some cur"
  shows "relayTask vs sdom ph (relay, r, now) a =
           Some (if v \<le> cur then a\<lparr>auction_relays := auction_relays (won relay bh (dst r) now a)\<rparr>
                 else won relay bh (dst r) now a)"
  using acceptedValue_Some[OF assms(1)] assms(2,3,4)
  unfolding relayTask_def recordBid_def won_def
  by (auto simp: Let_def split: option.splits)


lemma auction_relays_inv:
  "\<exists>a. runTasks vs sdom ph (map (\<lambda>i. (rel i, resp i, now i)) order) auction0 = Some a
       \<and> (\<forall>bh. auction_relays a bh =
             (let l = map (\<lambda>i. RelayEntry_String (rel i))
                        (filter (\<lambda>i. acceptedHash vs sdom ph (rel i) (resp i) = Some bh) order)
              in if l = [] then None else Some l))
       \<and> (if \<forall>i\<in>set order. acceptedValue vs sdom ph (rel i) (resp i) = None
          then auction_result a = bidResp_zero
          else \<exists>pre w post v bh. order = pre @ w # post
                 \<and> acceptedValue vs sdom ph (rel w) (resp w) = Some v
                 \<and> acceptedHash vs sdom ph (rel w) (resp w) = Some bh
                 \<and> (\<forall>j\<in>set pre. \<forall>u. acceptedValue vs sdom ph (rel j) (resp j) = Some u \<longrightarrow> u < v)
                 \<and> (\<forall>j\<in>set post. \<forall>u. acceptedValue vs sdom ph (rel j) (resp j) = Some u \<longrightarrow> u \<le> v)
                 \<and> auction_result a = \<lparr>bid_t = now w, response = dst (resp w), blockHash = bh, relays = []\<rparr>)"
  (is "\<exists>a. ?run order = Some a \<and> ?R order a \<and> ?B order a")
proof (induction order rule: rev_induct)
  case Nil
  show ?case by (simp add: auction0_def)
next
  case (snoc x xs)
  then obtain a where run: "?run xs = Some a" and R: "?R xs a" and B: "?B xs a" by blast
  let ?AV = "\<lambda>i. acceptedValue vs sdom ph (rel i) (resp i)"
  let ?AH = "\<lambda>i. acceptedHash vs sdom ph (rel i) (resp i)"
  have step: "?run (xs @ [x]) = relayTask vs sdom ph (rel x, resp x, now x) a"
    using run by (simp add: runTasks_append split: option.splits)
  show ?case
  proof (cases "?AV x")
    case None
    then have nh: "\<And>bh. ?AH x \<noteq> Some bh" using accepted_both[of vs sdom ph "rel x" "resp x"] by auto
    have "?run (xs @ [x]) = Some a" using step None by (simp add: relayTask_dropped)
    moreover have "?R (xs @ [x]) a" using R nh by simp
    moreover have "?B (xs @ [x]) a"
    proof (cases "\<forall>i\<in>set xs. ?AV i = None")
      case True
      then show ?thesis using B None by simp
    next
      case False
      then obtain pre w post v bh where d: "xs = pre @ w # post" "?AV w = Some v" "?AH w = Some bh"
        "\<forall>j\<in>set pre. \<forall>u. ?AV j = Some u \<longrightarrow> u < v" "\<forall>j\<in>set post. \<forall>u. ?AV j = Some u \<longrightarrow> u \<le> v"
        "auction_result a = \<lparr>bid_t = now w, response = dst (resp w), blockHash = bh, relays = []\<rparr>"
        using B unfolding if_not_P[OF False] by blast
      have "xs @ [x] = pre @ w # (post @ [x])" using d(1) by simp
      moreover have "\<forall>j\<in>set (post @ [x]). \<forall>u. ?AV j = Some u \<longrightarrow> u \<le> v" using d(5) None by auto
      ultimately have "\<exists>pre w post v bh. xs @ [x] = pre @ w # post \<and> ?AV w = Some v \<and> ?AH w = Some bh
          \<and> (\<forall>j\<in>set pre. \<forall>u. ?AV j = Some u \<longrightarrow> u < v) \<and> (\<forall>j\<in>set post. \<forall>u. ?AV j = Some u \<longrightarrow> u \<le> v)
          \<and> auction_result a = \<lparr>bid_t = now w, response = dst (resp w), blockHash = bh, relays = []\<rparr>"
        using d(2,3,4,6) by blast
      moreover have nall: "\<not> (\<forall>i\<in>set (xs @ [x]). ?AV i = None)" using False by auto
      ultimately show ?thesis unfolding if_not_P[OF nall] by blast
    qed
    ultimately show ?thesis by blast
  next
    case (Some vx)
    then obtain bx where bx: "?AH x = Some bx" using accepted_both[of vs sdom ph "rel x" "resp x"] by auto
    let ?w = "won (rel x) bx (dst (resp x)) (now x) a"
    have Rw: "?R (xs @ [x]) ?w" and Rw': "?R (xs @ [x]) (a\<lparr>auction_relays := auction_relays ?w\<rparr>)"
      using R bx by (auto simp: won_def Let_def)
    have nall: "\<not> (\<forall>i\<in>set (xs @ [x]). ?AV i = None)" using Some by auto
    show ?thesis
    proof (cases "\<forall>i\<in>set xs. ?AV i = None")
      case True
      then have z: "auction_result a = bidResp_zero" using B by simp
      then have "Data (response (auction_result a)) = None" by (simp add: bidResp_zero_def)
      then have r: "?run (xs @ [x]) = Some ?w" using step relayTask_first[OF Some bx] by simp
      have "auction_result ?w = \<lparr>bid_t = now x, response = dst (resp x), blockHash = bx, relays = []\<rparr>"
        using z by (simp add: won_def bidResp_zero_def)
      moreover have "\<forall>j\<in>set xs. \<forall>u. ?AV j = Some u \<longrightarrow> u < vx" using True by simp
      ultimately have "\<exists>pre w post v bh. xs @ [x] = pre @ w # post \<and> ?AV w = Some v \<and> ?AH w = Some bh
          \<and> (\<forall>j\<in>set pre. \<forall>u. ?AV j = Some u \<longrightarrow> u < v) \<and> (\<forall>j\<in>set post. \<forall>u. ?AV j = Some u \<longrightarrow> u \<le> v)
          \<and> auction_result ?w = \<lparr>bid_t = now w, response = dst (resp w), blockHash = bh, relays = []\<rparr>"
        using Some bx by (intro exI[of _ xs] exI[of _ x] exI[of _ "[]"] exI[of _ vx] exI[of _ bx]) simp
      then have "?B (xs @ [x]) ?w" unfolding if_not_P[OF nall] .
      then show ?thesis using r Rw by blast
    next
      case False
      then obtain pre w post v bh where d: "xs = pre @ w # post" "?AV w = Some v" "?AH w = Some bh"
        "\<forall>j\<in>set pre. \<forall>u. ?AV j = Some u \<longrightarrow> u < v" "\<forall>j\<in>set post. \<forall>u. ?AV j = Some u \<longrightarrow> u \<le> v"
        "auction_result a = \<lparr>bid_t = now w, response = dst (resp w), blockHash = bh, relays = []\<rparr>"
        using B unfolding if_not_P[OF False] by blast
      from acceptedValue_Some[OF d(2)] d(6)
      have cur: "Data (response (auction_result a)) \<noteq> None" "bidValue (response (auction_result a)) = Some v"
        by auto
      have r: "?run (xs @ [x]) = Some (if vx \<le> v then a\<lparr>auction_relays := auction_relays ?w\<rparr> else ?w)"
        using step relayTask_later[OF Some bx cur] by simp
      show ?thesis
      proof (cases "vx \<le> v")
        case True
        have "xs @ [x] = pre @ w # (post @ [x])" using d(1) by simp
        moreover have "\<forall>j\<in>set (post @ [x]). \<forall>u. ?AV j = Some u \<longrightarrow> u \<le> v" using d(5) Some True by auto
        ultimately have "\<exists>pre w post v bh. xs @ [x] = pre @ w # post \<and> ?AV w = Some v \<and> ?AH w = Some bh
          \<and> (\<forall>j\<in>set pre. \<forall>u. ?AV j = Some u \<longrightarrow> u < v) \<and> (\<forall>j\<in>set post. \<forall>u. ?AV j = Some u \<longrightarrow> u \<le> v)
          \<and> auction_result a = \<lparr>bid_t = now w, response = dst (resp w), blockHash = bh, relays = []\<rparr>"
          using d(2,3,4,6) by blast
        then have "?B (xs @ [x]) (a\<lparr>auction_relays := auction_relays ?w\<rparr>)"
          unfolding if_not_P[OF nall] by simp
        then show ?thesis using r True Rw' by auto
      next
        case gt: False
        have lt: "\<forall>j\<in>set xs. \<forall>u. ?AV j = Some u \<longrightarrow> u < vx"
          using d(1,2,4,5) gt by fastforce
        have "auction_result ?w = \<lparr>bid_t = now x, response = dst (resp x), blockHash = bx, relays = []\<rparr>"
          using d(6) by (simp add: won_def)
        then have "\<exists>pre w post v bh. xs @ [x] = pre @ w # post \<and> ?AV w = Some v \<and> ?AH w = Some bh
          \<and> (\<forall>j\<in>set pre. \<forall>u. ?AV j = Some u \<longrightarrow> u < v) \<and> (\<forall>j\<in>set post. \<forall>u. ?AV j = Some u \<longrightarrow> u \<le> v)
          \<and> auction_result ?w = \<lparr>bid_t = now w, response = dst (resp w), blockHash = bh, relays = []\<rparr>"
          using Some bx lt by (intro exI[of _ xs] exI[of _ x] exI[of _ "[]"] exI[of _ vx] exI[of _ bx]) simp
        then have "?B (xs @ [x]) ?w" unfolding if_not_P[OF nall] .
        then show ?thesis using r gt Rw by auto
      qed
    qed
  qed
qed


lemma handleGetHeader_valid:
  assumes "ParseUint slot_str = Some s" "length pubkey = 98" "length parentHashHex = 66"
  shows "\<exists>a. runTasks vs (builderSigningDomain m) parentHashHex
               (map (\<lambda>i. (svc_relays m ! i, resp i, now i)) order) auction0 = Some a
     \<and> handleGetHeader vs m slot_str parentHashHex pubkey resp now order =
        (if blockHash (auction_result a) = []
         then Some (WriteHeader StatusNoContent,
                    map (\<lambda>relay. (''GET'', GetURI relay (getHeaderPath slot_str parentHashHex pubkey))) (svc_relays m), m)
         else Some (RespondOK (response (auction_result a)),
                    map (\<lambda>relay. (''GET'', GetURI relay (getHeaderPath slot_str parentHashHex pubkey))) (svc_relays m),
                    m\<lparr>svc_bids := bids_store (s, blockHash (auction_result a))
                       ((auction_result a)\<lparr>relays := (case auction_relays a (blockHash (auction_result a)) of
                                         None \<Rightarrow> [] | Some l \<Rightarrow> l)\<rparr>) (svc_bids m)\<rparr>))"
proof -
  obtain a where "runTasks vs (builderSigningDomain m) parentHashHex
               (map (\<lambda>i. (svc_relays m ! i, resp i, now i)) order) auction0 = Some a"
    using auction_relays_inv[of vs "builderSigningDomain m" parentHashHex "\<lambda>i. svc_relays m ! i" resp now order]
    by blast
  then show ?thesis using assms
    by (simp add: handleGetHeader_def Let_def auction0_def)
qed

text \<open>C1: in an auction with at least one accepted bid, the handler returns the bid of a relay
  \<open>w\<close> whose value is at least that of every accepted bid, and every accepted bid that took
  the mutex before \<open>w\<close> has a strictly lower value: of several bids with the highest value
  the first-arrived one is returned, and a later bid of equal value does not displace it.\<close>

theorem getHeader_best_bid:
  assumes "ParseUint slot_str = Some s" "length pubkey = 98" "length parentHashHex = 66"
    and "set order = {..<length (svc_relays m)}"
    and "\<exists>i<length (svc_relays m). bidOf vs m parentHashHex resp i \<noteq> None"
  shows "\<exists>pre w post v sent m'.
           order = pre @ w # post
         \<and> handleGetHeader vs m slot_str parentHashHex pubkey resp now order
             = Some (RespondOK (dst (resp w)), sent, m')
         \<and> bidOf vs m parentHashHex resp w = Some v
         \<and> (\<forall>j<length (svc_relays m). \<forall>u. bidOf vs m parentHashHex resp j = Some u \<longrightarrow> u \<le> v)
         \<and> (\<forall>j\<in>set pre. \<forall>u. bidOf vs m parentHashHex resp j = Some u \<longrightarrow> u < v)"
proof -
  let ?AV = "\<lambda>i. acceptedValue vs (builderSigningDomain m) parentHashHex (svc_relays m ! i) (resp i)"
  let ?AH = "\<lambda>i. acceptedHash vs (builderSigningDomain m) parentHashHex (svc_relays m ! i) (resp i)"
  from handleGetHeader_valid[OF assms(1,2,3), of vs m resp now order]
  obtain a where run: "runTasks vs (builderSigningDomain m) parentHashHex
               (map (\<lambda>i. (svc_relays m ! i, resp i, now i)) order) auction0 = Some a"
    and h: "handleGetHeader vs m slot_str parentHashHex pubkey resp now order =
        (if blockHash (auction_result a) = []
         then Some (WriteHeader StatusNoContent,
                    map (\<lambda>relay. (''GET'', GetURI relay (getHeaderPath slot_str parentHashHex pubkey))) (svc_relays m), m)
         else Some (RespondOK (response (auction_result a)),
                    map (\<lambda>relay. (''GET'', GetURI relay (getHeaderPath slot_str parentHashHex pubkey))) (svc_relays m),
                    m\<lparr>svc_bids := bids_store (s, blockHash (auction_result a))
                       ((auction_result a)\<lparr>relays := (case auction_relays a (blockHash (auction_result a)) of
                                         None \<Rightarrow> [] | Some l \<Rightarrow> l)\<rparr>) (svc_bids m)\<rparr>))"
    by blast
  have nall: "\<not> (\<forall>i\<in>set order. ?AV i = None)"
    using assms(4,5) by (auto simp: bidOf_def)
  from auction_relays_inv[of vs "builderSigningDomain m" parentHashHex "\<lambda>i. svc_relays m ! i" resp now order]
  obtain pre w post v bh where d: "order = pre @ w # post" "?AV w = Some v" "?AH w = Some bh"
        "\<forall>j\<in>set pre. \<forall>u. ?AV j = Some u \<longrightarrow> u < v" "\<forall>j\<in>set post. \<forall>u. ?AV j = Some u \<longrightarrow> u \<le> v"
        "auction_result a = \<lparr>bid_t = now w, response = dst (resp w), blockHash = bh, relays = []\<rparr>"
    unfolding run if_not_P[OF nall] by auto
  have "bh \<noteq> []" using acceptedValue_Some[OF d(2)] d(3) by auto
  then have "\<exists>sent m'. handleGetHeader vs m slot_str parentHashHex pubkey resp now order
             = Some (RespondOK (dst (resp w)), sent, m')"
    using h d(6) by simp
  moreover have "\<forall>j<length (svc_relays m). \<forall>u. ?AV j = Some u \<longrightarrow> u \<le> v"
  proof (intro allI impI)
    fix j u assume "j < length (svc_relays m)" "?AV j = Some u"
    then have "j \<in> set pre \<or> j = w \<or> j \<in> set post" using assms(4) d(1) by auto
    then show "u \<le> v" using d(2,4,5) \<open>?AV j = Some u\<close> by fastforce
  qed
  ultimately show ?thesis using d(1,2,4) unfolding bidOf_def by blast
qed

theorem getHeader_best_bid_witness:
  "\<exists>pre w post v sent m'.
           [0, 1] = pre @ w # post
         \<and> handleGetHeader example_verify example_service ''42'' (Hash_String example_parent) example_pubkey
              example_resp example_now [0, 1]
             = Some (RespondOK (dst (example_resp w)), sent, m')
         \<and> bidOf example_verify example_service (Hash_String example_parent) example_resp w = Some v
         \<and> (\<forall>j<length (svc_relays example_service). \<forall>u.
               bidOf example_verify example_service (Hash_String example_parent) example_resp j = Some u \<longrightarrow> u \<le> v)
         \<and> (\<forall>j\<in>set pre. \<forall>u.
               bidOf example_verify example_service (Hash_String example_parent) example_resp j = Some u \<longrightarrow> u < v)"
proof -
  have "\<exists>i<length (svc_relays example_service).
          bidOf example_verify example_service (Hash_String example_parent) example_resp i \<noteq> None"
    using example_bidOf(2) by (intro exI[of _ 1]) (simp add: example_service_def)
  from getHeader_best_bid[OF example_parse example_lengths example_order this]
  show ?thesis .
qed

text \<open>C2: a relay goroutine changes the shared auction state only if its response passed the
  acceptance checks, and a response that passed them enters the critical section with a bid
  whose message pubkey is the relay's public key, whose signature verifies over the message
  under the signing domain and the relay's public key, whose parent hash renders to the
  request's \<^verbatim>\<open>parent_hash\<close>, whose value is not 0 and whose transactions root is not the
  empty-transaction-list sentinel.\<close>

theorem getHeader_selection_checked:
  "(relayTask vs sdom parentHashHex (relay, r, now) a \<noteq> Some a
      \<longrightarrow> (\<exists>bh. checkBid vs sdom parentHashHex relay r = Inr bh))
   \<and> (checkBid vs sdom parentHashHex relay r = Inr bh
      \<longrightarrow> relayTask vs sdom parentHashHex (relay, r, now) a = recordBid relay bh (dst r) now a
        \<and> (\<exists>d msg h. Data (dst r) = Some d \<and> Message d = Some msg \<and> Header msg = Some h
              \<and> Pubkey msg = PublicKey relay
              \<and> vs msg sdom (PublicKey relay) (Signature d) = Inr True
              \<and> Hash_String (ParentHash h) = parentHashHex
              \<and> Value msg \<noteq> 0
              \<and> Hash_String (TransactionsRoot h) \<noteq> emptyListTxRoot))"
proof (intro conjI impI)
  assume "relayTask vs sdom parentHashHex (relay, r, now) a \<noteq> Some a"
  then show "\<exists>bh. checkBid vs sdom parentHashHex relay r = Inr bh"
    by (cases "checkBid vs sdom parentHashHex relay r") (simp_all add: relayTask_def)
next
  assume c: "checkBid vs sdom parentHashHex relay r = Inr bh"
  then show "relayTask vs sdom parentHashHex (relay, r, now) a = recordBid relay bh (dst r) now a"
    by (simp add: relayTask_def)
  from checkBid_Inr[OF c]
  show "\<exists>d msg h. Data (dst r) = Some d \<and> Message d = Some msg \<and> Header msg = Some h
              \<and> Pubkey msg = PublicKey relay
              \<and> vs msg sdom (PublicKey relay) (Signature d) = Inr True
              \<and> Hash_String (ParentHash h) = parentHashHex
              \<and> Value msg \<noteq> 0
              \<and> Hash_String (TransactionsRoot h) \<noteq> emptyListTxRoot"
    by (auto simp: U256Str_String_zero)
qed

lemma example_checkBid:
  "checkBid example_verify (replicate 32 0) (Hash_String example_parent) relay2 (example_resp 1)
     = Inr (Hash_String example_hashB)"
  by code_simp

theorem getHeader_selection_checked_witness:
  "relayTask example_verify (replicate 32 0) (Hash_String example_parent) (relay2, example_resp 1, 1001) auction0
     = recordBid relay2 (Hash_String example_hashB) (dst (example_resp 1)) 1001 auction0
   \<and> (\<exists>d msg h. Data (dst (example_resp 1)) = Some d \<and> Message d = Some msg \<and> Header msg = Some h
              \<and> Pubkey msg = PublicKey relay2
              \<and> example_verify msg (replicate 32 0) (PublicKey relay2) (Signature d) = Inr True
              \<and> Hash_String (ParentHash h) = Hash_String example_parent
              \<and> Value msg \<noteq> 0
              \<and> Hash_String (TransactionsRoot h) \<noteq> emptyListTxRoot)"
  using getHeader_selection_checked[of example_verify "replicate 32 0" "Hash_String example_parent"
      relay2 "example_resp 1" 1001 auction0 "Hash_String example_hashB"] example_checkBid
  by simp

text \<open>C9: a request whose slot does not parse as an unsigned 64-bit decimal is answered
  400 \<^verbatim>\<open>invalid slot\<close>; one whose pubkey string is not 98 long, 400 \<^verbatim>\<open>invalid pubkey\<close>;
  one whose parent hash string is not 66 long, 400 \<^verbatim>\<open>invalid hash\<close> (the checks run in this
  order, and the first one that fails names the error). In each case no request is sent to
  a relay and the service is unchanged.\<close>

theorem getHeader_rejects_malformed:
  "(ParseUint slot_str = None \<longrightarrow>
      handleGetHeader vs m slot_str parentHashHex pubkey resp now order
        = Some (RespondError 400 errInvalidSlot, [], m))
   \<and> (ParseUint slot_str \<noteq> None \<and> length pubkey \<noteq> 98 \<longrightarrow>
      handleGetHeader vs m slot_str parentHashHex pubkey resp now order
        = Some (RespondError 400 errInvalidPubkey, [], m))
   \<and> (ParseUint slot_str \<noteq> None \<and> length pubkey = 98 \<and> length parentHashHex \<noteq> 66 \<longrightarrow>
      handleGetHeader vs m slot_str parentHashHex pubkey resp now order
        = Some (RespondError 400 errInvalidHash, [], m))
   \<and> (ParseUint slot_str = None \<or> length pubkey \<noteq> 98 \<or> length parentHashHex \<noteq> 66 \<longrightarrow>
      (\<exists>msg. handleGetHeader vs m slot_str parentHashHex pubkey resp now order
                = Some (RespondError 400 msg, [], m)
             \<and> (msg = errInvalidSlot \<and> ParseUint slot_str = None
                  \<or> msg = errInvalidPubkey \<and> length pubkey \<noteq> 98
                  \<or> msg = errInvalidHash \<and> length parentHashHex \<noteq> 66)))"
  by (cases "ParseUint slot_str") (auto simp: handleGetHeader_def StatusBadRequest_def)

lemma ParseUint_None_iff:
  "ParseUint s = None \<longleftrightarrow> s = [] \<or> (\<exists>c\<in>set s. \<not> isDigit c) \<or> 2 ^ 64 \<le> foldl (\<lambda>a c. 10 * a + digitVal c) 0 s"
  by (auto simp: ParseUint_def Let_def list_all_iff)

theorem getHeader_rejects_malformed_witness:
  "handleGetHeader example_verify example_service ''18446744073709551616'' (Hash_String example_parent)
       example_pubkey example_resp example_now [0, 1]
     = Some (RespondError 400 errInvalidSlot, [], example_service)
   \<and> handleGetHeader example_verify example_service ''42'' (Hash_String example_parent)
       (tl example_pubkey) example_resp example_now [0, 1]
     = Some (RespondError 400 errInvalidPubkey, [], example_service)
   \<and> handleGetHeader example_verify example_service ''42'' (CHR ''0'' # Hash_String example_parent)
       example_pubkey example_resp example_now [0, 1]
     = Some (RespondError 400 errInvalidHash, [], example_service)"
proof -
  have 1: "ParseUint ''18446744073709551616'' = None"
    by (simp add: ParseUint_def isDigit_def digitVal_def)
  have 2: "length (tl example_pubkey) \<noteq> 98" using example_lengths(1) by simp
  have 3: "length (CHR ''0'' # Hash_String example_parent) \<noteq> 66" using example_lengths(2) by simp
  show ?thesis
    using getHeader_rejects_malformed[of "''18446744073709551616''" example_verify example_service
        "Hash_String example_parent" example_pubkey example_resp example_now "[0, 1]"]
      getHeader_rejects_malformed[of "''42''" example_verify example_service
        "Hash_String example_parent" "tl example_pubkey" example_resp example_now "[0, 1]"]
      getHeader_rejects_malformed[of "''42''" example_verify example_service
        "CHR ''0'' # Hash_String example_parent" example_pubkey example_resp example_now "[0, 1]"]
      1 2 3 example_parse example_lengths
    by simp
qed

lemma filter_key_absent:
  "k \<notin> fst ` set b \<Longrightarrow> filter (\<lambda>e. fst e = k) b = []"
  by (induction b) auto

lemma bids_store_entry:
  assumes "distinct (map fst b)"
  shows "map_of (bids_store k v b) = (map_of b)(k \<mapsto> v)"
    and "distinct (map fst (bids_store k v b))"
    and "filter (\<lambda>e. fst e = k) (bids_store k v b) = [(k, v)]"
proof -
  show "map_of (bids_store k v b) = (map_of b)(k \<mapsto> v)"
    by (simp add: bids_store_def update_conv')
  show "distinct (map fst (bids_store k v b))"
    using assms by (simp add: bids_store_def distinct_update)
  show "filter (\<lambda>e. fst e = k) (bids_store k v b) = [(k, v)]"
    using assms unfolding bids_store_def
  proof (induction b)
    case Nil
    then show ?case by simp
  next
    case (Cons e b)
    then show ?case by (cases e) (auto simp: filter_key_absent)
  qed
qed

text \<open>C3: a completed auction at slot \<open>s\<close> with no accepted bid replies 204 and leaves the
  service (and its bid cache) as it was; with an accepted bid it replies with the response of
  the winning relay \<open>w\<close>, whose block hash is \<open>H\<close>, and stores the record of that response at
  key \<open>(s, H)\<close>: the cache then holds exactly one entry with that key, and the \<open>relays\<close> of the
  record are the relays whose accepted bid has block hash \<open>H\<close>, in the order they took the
  mutex.\<close>

theorem getHeader_reply_and_cache:
  assumes "ParseUint slot_str = Some s" "length pubkey = 98" "length parentHashHex = 66"
    and "set order = {..<length (svc_relays m)}"
    and "distinct (map fst (svc_bids m))"
  shows "((\<forall>i<length (svc_relays m). bidHashOf vs m parentHashHex resp i = None) \<longrightarrow>
            (\<exists>sent. handleGetHeader vs m slot_str parentHashHex pubkey resp now order
                      = Some (WriteHeader 204, sent, m)))
       \<and> ((\<exists>i<length (svc_relays m). bidHashOf vs m parentHashHex resp i \<noteq> None) \<longrightarrow>
            (\<exists>w H sent cached.
                 w < length (svc_relays m) \<and> bidHashOf vs m parentHashHex resp w = Some H
               \<and> cached = \<lparr>bid_t = now w, response = dst (resp w), blockHash = H,
                            relays = map (\<lambda>i. RelayEntry_String (svc_relays m ! i))
                                       (filter (\<lambda>i. bidHashOf vs m parentHashHex resp i = Some H) order)\<rparr>
               \<and> handleGetHeader vs m slot_str parentHashHex pubkey resp now order
                   = Some (RespondOK (dst (resp w)), sent,
                           m\<lparr>svc_bids := bids_store (s, H) cached (svc_bids m)\<rparr>)
               \<and> map_of (bids_store (s, H) cached (svc_bids m)) = (map_of (svc_bids m))((s, H) \<mapsto> cached)
               \<and> filter (\<lambda>e. fst e = (s, H)) (bids_store (s, H) cached (svc_bids m)) = [((s, H), cached)]))"
proof -
  let ?AV = "\<lambda>i. acceptedValue vs (builderSigningDomain m) parentHashHex (svc_relays m ! i) (resp i)"
  let ?AH = "\<lambda>i. acceptedHash vs (builderSigningDomain m) parentHashHex (svc_relays m ! i) (resp i)"
  let ?sent = "map (\<lambda>relay. (''GET'', GetURI relay (getHeaderPath slot_str parentHashHex pubkey))) (svc_relays m)"
  from handleGetHeader_valid[OF assms(1,2,3), of vs m resp now order]
  obtain a where run: "runTasks vs (builderSigningDomain m) parentHashHex
               (map (\<lambda>i. (svc_relays m ! i, resp i, now i)) order) auction0 = Some a"
    and h: "handleGetHeader vs m slot_str parentHashHex pubkey resp now order =
        (if blockHash (auction_result a) = []
         then Some (WriteHeader StatusNoContent, ?sent, m)
         else Some (RespondOK (response (auction_result a)), ?sent,
                    m\<lparr>svc_bids := bids_store (s, blockHash (auction_result a))
                       ((auction_result a)\<lparr>relays := (case auction_relays a (blockHash (auction_result a)) of
                                         None \<Rightarrow> [] | Some l \<Rightarrow> l)\<rparr>) (svc_bids m)\<rparr>))"
    by blast
  from auction_relays_inv[of vs "builderSigningDomain m" parentHashHex "\<lambda>i. svc_relays m ! i" resp now order]
  obtain a' where a': "runTasks vs (builderSigningDomain m) parentHashHex
               (map (\<lambda>i. (svc_relays m ! i, resp i, now i)) order) auction0 = Some a'"
    and R': "\<forall>bh. auction_relays a' bh =
             (let l = map (\<lambda>i. RelayEntry_String (svc_relays m ! i)) (filter (\<lambda>i. ?AH i = Some bh) order)
              in if l = [] then None else Some l)"
    and B': "if \<forall>i\<in>set order. ?AV i = None
          then auction_result a' = bidResp_zero
          else \<exists>pre w post v bh. order = pre @ w # post \<and> ?AV w = Some v \<and> ?AH w = Some bh
                 \<and> (\<forall>j\<in>set pre. \<forall>u. ?AV j = Some u \<longrightarrow> u < v)
                 \<and> (\<forall>j\<in>set post. \<forall>u. ?AV j = Some u \<longrightarrow> u \<le> v)
                 \<and> auction_result a' = \<lparr>bid_t = now w, response = dst (resp w), blockHash = bh, relays = []\<rparr>"
    by blast
  have "a' = a" using run a' by simp
  note R = R'[unfolded this, rule_format] and B = B'[unfolded this]
  have AVH: "\<And>i. ?AV i = None \<longleftrightarrow> ?AH i = None"
    using accepted_both[of vs "builderSigningDomain m" parentHashHex] by (metis not_Some_eq)
  show ?thesis
  proof (intro conjI impI)
    assume "\<forall>i<length (svc_relays m). bidHashOf vs m parentHashHex resp i = None"
    then have "\<forall>i\<in>set order. ?AV i = None" using assms(4) AVH by (auto simp: bidHashOf_def)
    then have "auction_result a = bidResp_zero" using B by simp
    then show "\<exists>sent. handleGetHeader vs m slot_str parentHashHex pubkey resp now order
                      = Some (WriteHeader 204, sent, m)"
      using h by (simp add: bidResp_zero_def StatusNoContent_def)
  next
    assume "\<exists>i<length (svc_relays m). bidHashOf vs m parentHashHex resp i \<noteq> None"
    then have nall: "\<not> (\<forall>i\<in>set order. ?AV i = None)" using assms(4) AVH by (auto simp: bidHashOf_def)
    from B obtain pre w post v bh where d: "order = pre @ w # post" "?AV w = Some v" "?AH w = Some bh"
        "auction_result a = \<lparr>bid_t = now w, response = dst (resp w), blockHash = bh, relays = []\<rparr>"
      unfolding if_not_P[OF nall] by blast
    have ne: "bh \<noteq> []" using acceptedValue_Some[OF d(2)] d(3) by auto
    have w: "w < length (svc_relays m)" using assms(4) d(1) by auto
    have "filter (\<lambda>i. ?AH i = Some bh) order \<noteq> []" using d(1,3) by (auto simp: filter_empty_conv)
    then have rl: "auction_relays a bh
        = Some (map (\<lambda>i. RelayEntry_String (svc_relays m ! i)) (filter (\<lambda>i. ?AH i = Some bh) order))"
      using R[of bh] by (simp add: Let_def)
    let ?cached = "\<lparr>bid_t = now w, response = dst (resp w), blockHash = bh,
                           relays = map (\<lambda>i. RelayEntry_String (svc_relays m ! i))
                                      (filter (\<lambda>i. ?AH i = Some bh) order)\<rparr>"
    have "handleGetHeader vs m slot_str parentHashHex pubkey resp now order
                   = Some (RespondOK (dst (resp w)), ?sent,
                       m\<lparr>svc_bids := bids_store (s, bh) ?cached (svc_bids m)\<rparr>)"
      using h d(4) ne rl by simp
    then show "\<exists>w H sent cached.
                 w < length (svc_relays m) \<and> bidHashOf vs m parentHashHex resp w = Some H
               \<and> cached = \<lparr>bid_t = now w, response = dst (resp w), blockHash = H,
                            relays = map (\<lambda>i. RelayEntry_String (svc_relays m ! i))
                                       (filter (\<lambda>i. bidHashOf vs m parentHashHex resp i = Some H) order)\<rparr>
               \<and> handleGetHeader vs m slot_str parentHashHex pubkey resp now order
                   = Some (RespondOK (dst (resp w)), sent,
                           m\<lparr>svc_bids := bids_store (s, H) cached (svc_bids m)\<rparr>)
               \<and> map_of (bids_store (s, H) cached (svc_bids m)) = (map_of (svc_bids m))((s, H) \<mapsto> cached)
               \<and> filter (\<lambda>e. fst e = (s, H)) (bids_store (s, H) cached (svc_bids m)) = [((s, H), cached)]"
      using w d(3) bids_store_entry[OF assms(5), of "(s, bh)" ?cached] unfolding bidHashOf_def by blast
  qed
qed

definition example_no_content :: "nat \<Rightarrow> GetHeaderResponse http_result" where
  "example_no_content i = \<lparr>code = 204, err = None, dst = \<lparr>Version = [], Data = None\<rparr>\<rparr>"

theorem getHeader_reply_and_cache_witness:
  "(\<exists>sent. handleGetHeader example_verify example_service ''42'' (Hash_String example_parent) example_pubkey
              example_no_content example_now [0, 1]
          = Some (WriteHeader 204, sent, example_service))
   \<and> (\<exists>w H sent cached. w < length (svc_relays example_service)
      \<and> bidHashOf example_verify example_service (Hash_String example_parent) example_resp w = Some H
      \<and> cached = \<lparr>bid_t = example_now w, response = dst (example_resp w), blockHash = H,
                   relays = map (\<lambda>i. RelayEntry_String (svc_relays example_service ! i))
                     (filter (\<lambda>i. bidHashOf example_verify example_service (Hash_String example_parent)
                                   example_resp i = Some H) [0, 1])\<rparr>
      \<and> handleGetHeader example_verify example_service ''42'' (Hash_String example_parent) example_pubkey
              example_resp example_now [0, 1]
          = Some (RespondOK (dst (example_resp w)), sent,
               example_service\<lparr>svc_bids := bids_store (42, H) cached (svc_bids example_service)\<rparr>)
      \<and> map_of (bids_store (42, H) cached (svc_bids example_service))
           = (map_of (svc_bids example_service))((42, H) \<mapsto> cached)
      \<and> filter (\<lambda>e. fst e = (42, H)) (bids_store (42, H) cached (svc_bids example_service))
           = [((42, H), cached)])"
proof -
  have d: "distinct (map fst (svc_bids example_service))" by (simp add: example_service_def)
  have 1: "\<exists>i<length (svc_relays example_service).
          bidHashOf example_verify example_service (Hash_String example_parent) example_resp i \<noteq> None"
    using example_bidHashOf(2) by (intro exI[of _ 1]) (simp add: example_service_def)
  have 2: "\<forall>i<length (svc_relays example_service).
          bidHashOf example_verify example_service (Hash_String example_parent) example_no_content i = None"
    by (simp add: bidHashOf_def acceptedHash_def checkBid_def example_no_content_def)
  from getHeader_reply_and_cache[OF example_parse example_lengths example_order d,
      of example_verify example_resp example_now] 1
    getHeader_reply_and_cache[OF example_parse example_lengths example_order d,
      of example_verify example_no_content example_now] 2
  show ?thesis by blast
qed

subsection \<open>handleStatus: invariant and progress\<close>

lemma run_Nil [simp]: "run step [] s = s"
  by (simp add: run_def)

lemma run_Cons [simp]: "run step (e # es) s = run step es (step e s)"
  by (simp add: run_def)

lemma run_append: "run step (es @ es') s = run step es' (run step es s)"
  by (simp add: run_def)

lemma run_invariant:
  assumes "\<And>e s. I s \<Longrightarrow> I (step e s)" and "I s"
  shows "I (run step es s)"
  using assms(2) by (induction es arbitrary: s) (simp_all add: assms(1))

lemma count_update:
  "i < length xs \<Longrightarrow>
   length (filter P (xs[i := y])) + (if P (xs ! i) then 1 else 0)
     = length (filter P xs) + (if P y then 1 else 0)"
proof (induction xs arbitrary: i)
  case Nil
  then show ?case by simp
next
  case (Cons x xs)
  then show ?case by (cases i) auto
qed

definition status_counted :: "status_pc \<Rightarrow> bool" where
  "status_counted p = (p = SCancel \<or> p = SDone)"

definition status_good :: "(nat \<Rightarrow> string option) \<Rightarrow> status_pc list \<Rightarrow> bool" where
  "status_good send pcs = (\<exists>j<length pcs. send j = None \<and> pcs ! j = SDone)"

definition status_inv :: "nat \<Rightarrow> (nat \<Rightarrow> string option) \<Rightarrow> status_state \<Rightarrow> bool" where
  "status_inv n send s \<longleftrightarrow>
     length (st_pcs s) = n
   \<and> numSuccessRequestsToRelay s = of_nat (length (filter status_counted (st_pcs s)))
   \<and> (\<forall>i<n. st_pcs s ! i = SFailed \<longrightarrow> send i \<noteq> None)
   \<and> (\<forall>i<n. st_pcs s ! i \<in> {SAdd, SCancel, SDone} \<and> send i \<noteq> None \<longrightarrow> status_good send (st_pcs s))
   \<and> (st_cancelled s \<and> st_reply s = None \<longrightarrow> status_good send (st_pcs s))
   \<and> (\<forall>i<n. st_pcs s ! i = SDone \<longrightarrow> st_cancelled s)
   \<and> (\<forall>r. st_reply s = Some r \<longrightarrow> list_all (\<lambda>p. p = SFailed \<or> p = SDone) (st_pcs s)
          \<and> r = (if numSuccessRequestsToRelay s > 0 then RespondOK ()
                  else RespondError StatusServiceUnavailable errAllRelaysUnavailable))"

lemma status_good_update:
  "status_good send pcs \<Longrightarrow> i < length pcs \<Longrightarrow> pcs ! i \<noteq> SDone \<Longrightarrow> status_good send (pcs[i := p])"
  unfolding status_good_def by (metis length_list_update nth_list_update_neq)

lemma status_good_intro:
  "i < length pcs \<Longrightarrow> send i = None \<Longrightarrow> status_good send (pcs[i := SDone])"
  unfolding status_good_def by (metis length_list_update nth_list_update_eq)

lemma status_not_replied:
  assumes "status_inv n send s" "i < length (st_pcs s)" "st_pcs s ! i \<notin> {SFailed, SDone}"
  shows "st_reply s = None"
proof (rule ccontr)
  assume "st_reply s \<noteq> None"
  then have "list_all (\<lambda>p. p = SFailed \<or> p = SDone) (st_pcs s)" using assms(1) by (auto simp: status_inv_def)
  then show False using assms(2,3) by (auto simp: list_all_length)
qed

lemma status_inv_task:
  assumes "status_inv n send s" "i < length (st_pcs s)"
  shows "status_inv n send (status_task m send i s)"
proof (cases "st_pcs s ! i")
  case SSend
  have nr: "st_reply s = None" using status_not_replied[OF assms] SSend by simp
  have g: "\<And>p. status_good send (st_pcs s) \<Longrightarrow> status_good send ((st_pcs s)[i := p])"
    using status_good_update[OF _ assms(2)] SSend by simp
  show ?thesis
    using assms SSend nr count_update[of i "st_pcs s" status_counted SFailed]
      count_update[of i "st_pcs s" status_counted SAdd] g
    unfolding status_inv_def status_task_def
    by (auto simp: Let_def status_counted_def nth_list_update)
next
  case SAdd
  have nr: "st_reply s = None" using status_not_replied[OF assms] SAdd by simp
  have g: "\<And>p. status_good send (st_pcs s) \<Longrightarrow> status_good send ((st_pcs s)[i := p])"
    using status_good_update[OF _ assms(2)] SAdd by simp
  show ?thesis
    using assms SAdd nr count_update[of i "st_pcs s" status_counted SCancel] g
    unfolding status_inv_def status_task_def
    by (auto simp: Let_def status_counted_def nth_list_update)
next
  case SCancel
  have nr: "st_reply s = None" using status_not_replied[OF assms] SCancel by simp
  have g: "\<And>p. status_good send (st_pcs s) \<Longrightarrow> status_good send ((st_pcs s)[i := p])"
    using status_good_update[OF _ assms(2)] SCancel by simp
  have g': "status_good send ((st_pcs s)[i := SDone])"
  proof (cases "send i")
    case None
    then show ?thesis using status_good_intro[OF assms(2)] by simp
  next
    case (Some e)
    then have "status_good send (st_pcs s)" using assms SCancel by (auto simp: status_inv_def)
    then show ?thesis by (rule g)
  qed
  show ?thesis
    using assms SCancel nr count_update[of i "st_pcs s" status_counted SDone] g g'
    unfolding status_inv_def status_task_def
    by (auto simp: Let_def status_counted_def nth_list_update)
next
  case SFailed
  then show ?thesis using assms by (simp add: status_task_def)
next
  case SDone
  then show ?thesis using assms by (simp add: status_task_def)
qed


lemma status_inv_handler:
  assumes "status_inv n send s"
  shows "status_inv n send (status_handler s)"
  using assms unfolding status_inv_def status_handler_def by auto

lemma status_inv_step:
  "status_inv n send s \<Longrightarrow> status_inv n send (status_step m send e s)"
  by (cases e) (simp_all add: status_step_def status_inv_task status_inv_handler)

definition status_init :: "nat \<Rightarrow> status_state" where
  "status_init n = \<lparr>st_pcs = replicate n SSend, numSuccessRequestsToRelay = 0,
              st_cancelled = False, st_sent = [], st_reply = None\<rparr>"

lemma status_inv_init: "status_inv n send (status_init n)"
  by (simp add: status_inv_def status_init_def status_counted_def status_good_def)

lemma status_inv_run: "status_inv n send (run (status_step m send) es (status_init n))"
  by (rule run_invariant[where I = "status_inv n send"]) (simp_all add: status_inv_step status_inv_init)

lemma handleStatus_enabled:
  "relayCheck m \<Longrightarrow> handleStatus m send es = run (status_step m send) es (status_init (length (svc_relays m)))"
  by (simp add: handleStatus_def status_init_def)

lemma status_count_pos:
  assumes "status_inv n send s" "n < 2 ^ 32"
  shows "numSuccessRequestsToRelay s > 0 \<longleftrightarrow> (\<exists>i<n. status_counted (st_pcs s ! i))"
    and "unat (numSuccessRequestsToRelay s) = length (filter status_counted (st_pcs s))"
proof -
  let ?c = "length (filter status_counted (st_pcs s))"
  have len: "length (st_pcs s) = n" and cnt: "numSuccessRequestsToRelay s = of_nat ?c"
    using assms(1) by (simp_all add: status_inv_def)
  have "?c \<le> n" using len length_filter_le[of status_counted "st_pcs s"] by simp
  then have "?c < 2 ^ 32" using assms(2) by simp
  then show u: "unat (numSuccessRequestsToRelay s) = ?c"
    unfolding cnt by (simp add: unat_of_nat)
  have "numSuccessRequestsToRelay s > 0 \<longleftrightarrow> ?c \<noteq> 0"
    using u by (metis unat_gt_0 neq0_conv word_neq_0_conv)
  also have "\<dots> \<longleftrightarrow> (\<exists>p\<in>set (st_pcs s). status_counted p)"
    by (simp add: filter_empty_conv)
  also have "\<dots> \<longleftrightarrow> (\<exists>i<n. status_counted (st_pcs s ! i))"
    using len by (metis in_set_conv_nth)
  finally show "numSuccessRequestsToRelay s > 0 \<longleftrightarrow> (\<exists>i<n. status_counted (st_pcs s ! i))" .
qed

lemma status_reply_iff:
  assumes "status_inv n send s" "n < 2 ^ 32" "st_reply s = Some r"
  shows "r = (if \<exists>i<n. send i = None then RespondOK ()
              else RespondError StatusServiceUnavailable errAllRelaysUnavailable)"
proof -
  have len: "length (st_pcs s) = n" using assms(1) by (simp add: status_inv_def)
  have all: "\<And>i. i < n \<Longrightarrow> st_pcs s ! i = SFailed \<or> st_pcs s ! i = SDone"
    using assms(1,3) len by (auto simp: status_inv_def list_all_length)
  have r: "r = (if numSuccessRequestsToRelay s > 0 then RespondOK ()
                  else RespondError StatusServiceUnavailable errAllRelaysUnavailable)"
    using assms(1,3) by (simp add: status_inv_def)
  have "(\<exists>i<n. status_counted (st_pcs s ! i)) \<longleftrightarrow> (\<exists>i<n. send i = None)"
  proof
    assume "\<exists>i<n. status_counted (st_pcs s ! i)"
    then obtain i where i: "i < n" "st_pcs s ! i = SDone" using all by (fastforce simp: status_counted_def)
    show "\<exists>i<n. send i = None"
    proof (cases "send i")
      case None
      then show ?thesis using i by blast
    next
      case (Some e)
      then have "status_good send (st_pcs s)" using assms(1) i by (auto simp: status_inv_def)
      then show ?thesis using len by (auto simp: status_good_def)
    qed
  next
    assume "\<exists>i<n. send i = None"
    then obtain i where i: "i < n" "send i = None" by blast
    then have "st_pcs s ! i \<noteq> SFailed" using assms(1) by (auto simp: status_inv_def)
    then have "st_pcs s ! i = SDone" using all[OF i(1)] by simp
    then show "\<exists>i<n. status_counted (st_pcs s ! i)" using i(1) by (auto simp: status_counted_def)
  qed
  then show ?thesis using r status_count_pos(1)[OF assms(1,2)] by simp
qed


definition status_done :: "status_pc \<Rightarrow> bool" where
  "status_done p = (p = SFailed \<or> p = SDone)"

lemma status_step_length [simp]:
  "length (st_pcs (status_step m send e s)) = length (st_pcs s)"
  by (cases e) (auto simp: status_step_def status_task_def status_handler_def Let_def split: status_pc.splits)

lemma status_step_done_stable:
  "j < length (st_pcs s) \<Longrightarrow> status_done (st_pcs s ! j) \<Longrightarrow> status_done (st_pcs (status_step m send e s) ! j)"
  by (cases e)
     (auto simp: status_step_def status_task_def status_handler_def status_done_def Let_def nth_list_update
           split: status_pc.splits)

lemma status_run_length [simp]:
  "length (st_pcs (run (status_step m send) es s)) = length (st_pcs s)"
  by (induction es arbitrary: s) simp_all

lemma status_run_done_stable:
  "j < length (st_pcs s) \<Longrightarrow> status_done (st_pcs s ! j) \<Longrightarrow> status_done (st_pcs (run (status_step m send) es s) ! j)"
  by (induction es arbitrary: s) (simp_all add: status_step_done_stable)

lemma status_task_finishes:
  assumes "i < length (st_pcs s)"
  shows "status_done (st_pcs (run (status_step m send) (replicate 3 (Task i)) s) ! i)"
  using assms
  by (cases "st_pcs s ! i")
     (auto simp: numeral_3_eq_3 status_step_def status_task_def status_done_def Let_def)

lemma status_all_finish:
  assumes "k \<le> length (st_pcs s)"
  shows "\<forall>i<k. status_done (st_pcs (run (status_step m send)
            (concat (map (\<lambda>i. replicate 3 (Task i)) [0..<k])) s) ! i)"
  using assms
proof (induction k)
  case 0
  then show ?case by simp
next
  case (Suc k)
  let ?s = "run (status_step m send) (concat (map (\<lambda>i. replicate 3 (Task i)) [0..<k])) s"
  have split: "run (status_step m send) (concat (map (\<lambda>i. replicate 3 (Task i)) [0..<Suc k])) s
      = run (status_step m send) (replicate 3 (Task k)) ?s"
    by (simp add: run_append)
  have old: "\<forall>i<k. status_done (st_pcs ?s ! i)" using Suc by simp
  show ?case unfolding split
  proof (intro allI impI)
    fix i assume "i < Suc k"
    then consider "i < k" | "i = k" by linarith
    then show "status_done (st_pcs (run (status_step m send) (replicate 3 (Task k)) ?s) ! i)"
    proof cases
      case 1
      then show ?thesis
        using old Suc.prems status_run_done_stable[of i ?s m send "replicate 3 (Task k)"] by simp
    next
      case 2
      then show ?thesis using Suc.prems by (simp add: status_task_finishes)
    qed
  qed
qed

lemma status_replies:
  "st_reply (run (status_step m send) (es @ finish 3 (length (st_pcs s))) s) \<noteq> None"
proof -
  let ?n = "length (st_pcs s)"
  let ?s1 = "run (status_step m send) es s"
  let ?s2 = "run (status_step m send) (concat (map (\<lambda>i. replicate 3 (Task i)) [0..<?n])) ?s1"
  have "\<forall>i<?n. status_done (st_pcs ?s2 ! i)"
    using status_all_finish[of ?n ?s1 m send] by simp
  then have "list_all (\<lambda>p. p = SFailed \<or> p = SDone) (st_pcs ?s2)"
    by (simp add: list_all_length status_done_def)
  then have "st_reply (status_handler ?s2) \<noteq> None"
    by (simp add: status_handler_def)
  then show ?thesis
    by (simp add: finish_def run_append status_step_def)
qed

subsection \<open>CheckRelays and handleStatus: the claims\<close>

lemma CheckRelays_loop_all:
  "(\<forall>i<length rs. send (k + i) = None) \<Longrightarrow>
   CheckRelays_loop send k rs = (True, map (\<lambda>r. (''GET'', GetURI r pathStatus)) rs)"
proof (induction rs arbitrary: k)
  case Nil
  then show ?case by simp
next
  case (Cons r rs)
  have "send k = None" using Cons.prems by force
  moreover have "\<forall>i<length rs. send (Suc k + i) = None" using Cons.prems by force
  ultimately show ?case using Cons.IH[of "Suc k"] by simp
qed

lemma CheckRelays_loop_first_failure:
  "i < length rs \<Longrightarrow> send (k + i) \<noteq> None \<Longrightarrow> (\<forall>j<i. send (k + j) = None) \<Longrightarrow>
   CheckRelays_loop send k rs = (False, map (\<lambda>r. (''GET'', GetURI r pathStatus)) (take (Suc i) rs))"
proof (induction rs arbitrary: k i)
  case Nil
  then show ?case by simp
next
  case (Cons r rs)
  show ?case
  proof (cases i)
    case 0
    then show ?thesis using Cons.prems by auto
  next
    case (Suc i')
    have "send k = None" using Cons.prems(3) Suc by force
    moreover have "i' < length rs" "send (Suc k + i') \<noteq> None" "\<forall>j<i'. send (Suc k + j) = None"
      using Cons.prems Suc by force+
    ultimately show ?thesis using Cons.IH[of i' "Suc k"] Suc by simp
  qed
qed

lemma first_failure_exists:
  "\<exists>i<(n::nat). send i \<noteq> None \<Longrightarrow> \<exists>i<n. send i \<noteq> None \<and> (\<forall>j<i. send j = (None :: string option))"
proof -
  assume "\<exists>i<n. send i \<noteq> None"
  then obtain i where "i < n \<and> send i \<noteq> None" by blast
  then have "\<exists>i. i < n \<and> send i \<noteq> None" by blast
  from exists_least_iff[THEN iffD1, OF this]
  obtain i where "i < n \<and> send i \<noteq> None" "\<forall>j<i. \<not> (j < n \<and> send j \<noteq> None)" by blast
  then show ?thesis by (intro exI[of _ i]) auto
qed

text \<open>C10: \<^verbatim>\<open>CheckRelays\<close> asks the relays one after the other and returns true iff the
  request to every relay returns without error; at the first relay whose request fails it
  returns false, and it has then sent requests to the relays up to that one only. The
  status handler (with \<^verbatim>\<open>relayCheck\<close> on) instead replies success iff the request to at least
  one relay returns without error.\<close>

theorem CheckRelays_all_relays:
  "fst (CheckRelays m send) = (\<forall>i<length (svc_relays m). send i = None)
   \<and> ((\<forall>i<length (svc_relays m). send i = None) \<longrightarrow>
         snd (CheckRelays m send) = map (\<lambda>r. (''GET'', GetURI r pathStatus)) (svc_relays m))
   \<and> (\<forall>i<length (svc_relays m). send i \<noteq> None \<and> (\<forall>j<i. send j = None) \<longrightarrow>
         CheckRelays m send
           = (False, map (\<lambda>r. (''GET'', GetURI r pathStatus)) (take (Suc i) (svc_relays m))))
   \<and> (relayCheck m \<and> length (svc_relays m) < 2 ^ 32 \<longrightarrow>
         (\<forall>es r. st_reply (handleStatus m send es) = Some r \<longrightarrow>
            (r = RespondOK ()) = (\<exists>i<length (svc_relays m). send i = None)))"
proof (intro conjI impI allI)
  show "fst (CheckRelays m send) = (\<forall>i<length (svc_relays m). send i = None)"
  proof (cases "\<forall>i<length (svc_relays m). send i = None")
    case True
    then show ?thesis using CheckRelays_loop_all[of "svc_relays m" send 0] by (simp add: CheckRelays_def)
  next
    case False
    then obtain i where "i < length (svc_relays m)" "send i \<noteq> None" "\<forall>j<i. send j = None"
      using first_failure_exists[of "length (svc_relays m)" send] by blast
    then show ?thesis
      using CheckRelays_loop_first_failure[of i "svc_relays m" send 0] False by (simp add: CheckRelays_def)
  qed
next
  assume "\<forall>i<length (svc_relays m). send i = None"
  then show "snd (CheckRelays m send) = map (\<lambda>r. (''GET'', GetURI r pathStatus)) (svc_relays m)"
    using CheckRelays_loop_all[of "svc_relays m" send 0] by (simp add: CheckRelays_def)
next
  fix i assume "i < length (svc_relays m)" "send i \<noteq> None \<and> (\<forall>j<i. send j = None)"
  then show "CheckRelays m send
           = (False, map (\<lambda>r. (''GET'', GetURI r pathStatus)) (take (Suc i) (svc_relays m)))"
    using CheckRelays_loop_first_failure[of i "svc_relays m" send 0] by (simp add: CheckRelays_def)
next
  fix es r
  assume a: "relayCheck m \<and> length (svc_relays m) < 2 ^ 32" and r: "st_reply (handleStatus m send es) = Some r"
  have inv: "status_inv (length (svc_relays m)) send (handleStatus m send es)"
    using a by (simp add: handleStatus_enabled status_inv_run)
  have "StatusServiceUnavailable = 503" by (simp add: StatusServiceUnavailable_def)
  then show "(r = RespondOK ()) = (\<exists>i<length (svc_relays m). send i = None)"
    using status_reply_iff[OF inv _ r] a by auto
qed

definition example_send :: "nat \<Rightarrow> string option" where
  "example_send i = (if i = 0 then None else Some ''HTTP error response: 500'')"



lemmas status_eval = handleStatus_def finish_def status_step_def status_task_def status_handler_def
  Let_def numeral_3_eq_3 numeral_2_eq_2 upt_rec

theorem CheckRelays_all_relays_witness:
  "CheckRelays example_service example_send
     = (False, map (\<lambda>r. (''GET'', GetURI r pathStatus)) (take (Suc 1) (svc_relays example_service)))
   \<and> st_reply (handleStatus example_service example_send (finish 3 2)) = Some (RespondOK ())
   \<and> (\<exists>i<length (svc_relays example_service). example_send i = None)"
proof -
  have 1: "(1::nat) < length (svc_relays example_service)" by (simp add: example_service_def)
  have 2: "example_send 1 \<noteq> None \<and> (\<forall>j<1. example_send j = None)" by (simp add: example_send_def)
  have 3: "relayCheck example_service \<and> length (svc_relays example_service) < 2 ^ 32"
    by (simp add: example_service_def)
  have r: "st_reply (handleStatus example_service example_send (finish 3 2)) = Some (RespondOK ())"
    by (simp add: status_eval example_service_def example_send_def)
  note T = CheckRelays_all_relays[of example_service example_send]
  have a: "CheckRelays example_service example_send
     = (False, map (\<lambda>r. (''GET'', GetURI r pathStatus)) (take (Suc 1) (svc_relays example_service)))"
    using T[THEN conjunct2, THEN conjunct2, THEN conjunct1, rule_format, OF 1 2] .
  have b: "\<exists>i<length (svc_relays example_service). example_send i = None"
    using T[THEN conjunct2, THEN conjunct2, THEN conjunct2, THEN mp, OF 3, rule_format, OF r] by simp
  show ?thesis using a r b by blast
qed

text \<open>C7, as the code has it: with \<^verbatim>\<open>relayCheck\<close> off the handler replies success at once and
  sends no request. With it on (and fewer than \<open>2 ^ 32\<close> relays), at every point of every
  interleaving: the counter is the number of goroutines that have passed the increment, one
  each; a goroutine whose request returned without error is never turned away at the guard
  (it increments the counter and then cancels the shared context); a goroutine whose request
  failed passes the guard only after a goroutine with an error-free request has cancelled
  the context; the handler replies only when every goroutine has ended, and then with
  success if the counter is positive and 503 otherwise, which is success iff the request to
  at least one relay returned without error; and after every interleaving, letting the
  goroutines and the handler run gives a reply.\<close>

theorem handleStatus_counter_and_reply:
  "(\<not> relayCheck m \<longrightarrow>
       st_reply (handleStatus m send es) = Some (RespondOK ()) \<and> st_sent (handleStatus m send es) = [])
   \<and> (relayCheck m \<and> length (svc_relays m) < 2 ^ 32 \<longrightarrow>
       unat (numSuccessRequestsToRelay (handleStatus m send es))
         = length (filter (\<lambda>p. p = SCancel \<or> p = SDone) (st_pcs (handleStatus m send es)))
     \<and> (\<forall>i<length (svc_relays m). send i = None \<longrightarrow> st_pcs (handleStatus m send es) ! i \<noteq> SFailed)
     \<and> (\<forall>i<length (svc_relays m). st_pcs (handleStatus m send es) ! i = SDone
            \<longrightarrow> st_cancelled (handleStatus m send es))
     \<and> (\<forall>i<length (svc_relays m).
            send i \<noteq> None \<and> st_pcs (handleStatus m send es) ! i \<in> {SAdd, SCancel, SDone}
            \<longrightarrow> (\<exists>j<length (svc_relays m). send j = None \<and> st_pcs (handleStatus m send es) ! j = SDone))
     \<and> (\<forall>r. st_reply (handleStatus m send es) = Some r \<longrightarrow>
            list_all (\<lambda>p. p = SFailed \<or> p = SDone) (st_pcs (handleStatus m send es))
          \<and> r = (if numSuccessRequestsToRelay (handleStatus m send es) > 0 then RespondOK ()
                  else RespondError 503 errAllRelaysUnavailable)
          \<and> ((r = RespondOK ()) = (\<exists>i<length (svc_relays m). send i = None)))
     \<and> st_reply (handleStatus m send (es @ finish 3 (length (svc_relays m)))) \<noteq> None)"
proof (intro conjI impI)
  assume "\<not> relayCheck m"
  then show "st_reply (handleStatus m send es) = Some (RespondOK ())" "st_sent (handleStatus m send es) = []"
    by (simp_all add: handleStatus_def)
next
  assume a: "relayCheck m \<and> length (svc_relays m) < 2 ^ 32"
  let ?n = "length (svc_relays m)"
  let ?s = "handleStatus m send es"
  have inv: "status_inv ?n send ?s"
    using a by (simp add: handleStatus_enabled status_inv_run)
  have len: "length (st_pcs ?s) = ?n" using inv by (simp add: status_inv_def)
  have c: "status_counted = (\<lambda>p. p = SCancel \<or> p = SDone)" by (auto simp: status_counted_def)
  show "unat (numSuccessRequestsToRelay ?s) = length (filter (\<lambda>p. p = SCancel \<or> p = SDone) (st_pcs ?s))"
    using status_count_pos(2)[OF inv] a c by simp
  show "\<forall>i<?n. send i = None \<longrightarrow> st_pcs ?s ! i \<noteq> SFailed"
    using inv by (auto simp: status_inv_def)
  show "\<forall>i<?n. st_pcs ?s ! i = SDone \<longrightarrow> st_cancelled ?s"
    using inv by (auto simp: status_inv_def)
  show "\<forall>i<?n. send i \<noteq> None \<and> st_pcs ?s ! i \<in> {SAdd, SCancel, SDone}
            \<longrightarrow> (\<exists>j<?n. send j = None \<and> st_pcs ?s ! j = SDone)"
  proof (intro allI impI)
    fix i assume "i < ?n" "send i \<noteq> None \<and> st_pcs ?s ! i \<in> {SAdd, SCancel, SDone}"
    then have "status_good send (st_pcs ?s)" using inv unfolding status_inv_def by blast
    then show "\<exists>j<?n. send j = None \<and> st_pcs ?s ! j = SDone" using len by (simp add: status_good_def)
  qed
  show "\<forall>r. st_reply ?s = Some r \<longrightarrow>
            list_all (\<lambda>p. p = SFailed \<or> p = SDone) (st_pcs ?s)
          \<and> r = (if numSuccessRequestsToRelay ?s > 0 then RespondOK ()
                  else RespondError 503 errAllRelaysUnavailable)
          \<and> ((r = RespondOK ()) = (\<exists>i<?n. send i = None))"
  proof (intro allI impI)
    fix r assume r: "st_reply ?s = Some r"
    have c503: "StatusServiceUnavailable = 503" by (simp add: StatusServiceUnavailable_def)
    have A: "list_all (\<lambda>p. p = SFailed \<or> p = SDone) (st_pcs ?s)
          \<and> r = (if numSuccessRequestsToRelay ?s > 0 then RespondOK ()
                  else RespondError StatusServiceUnavailable errAllRelaysUnavailable)"
      using inv r unfolding status_inv_def by blast
    have B: "r = (if \<exists>i<?n. send i = None then RespondOK ()
              else RespondError StatusServiceUnavailable errAllRelaysUnavailable)"
      using status_reply_iff[OF inv _ r] a by simp
    have C: "(r = RespondOK ()) = (\<exists>i<?n. send i = None)"
      by (subst B) simp
    show "list_all (\<lambda>p. p = SFailed \<or> p = SDone) (st_pcs ?s)
          \<and> r = (if numSuccessRequestsToRelay ?s > 0 then RespondOK ()
                  else RespondError 503 errAllRelaysUnavailable)
          \<and> ((r = RespondOK ()) = (\<exists>i<?n. send i = None))"
      using A C unfolding c503 by blast
  qed
  show "st_reply (handleStatus m send (es @ finish 3 ?n)) \<noteq> None"
    using status_replies[of m send es "status_init ?n"] a
    by (simp add: handleStatus_enabled status_init_def)
qed

text \<open>The counter is not incremented on the first error-free response only: with one
  error-free relay and one failing relay, run one after the other, it ends at 2.\<close>

theorem handleStatus_counter_counterexample:
  "numSuccessRequestsToRelay (handleStatus example_service example_send (finish 3 2)) = 2
   \<and> filter (\<lambda>i. example_send i = None) [0..<length (svc_relays example_service)] = [0]"
  by (simp add: status_eval example_service_def example_send_def)

theorem handleStatus_counter_and_reply_witness:
  "st_reply (handleStatus (example_service\<lparr>relayCheck := False\<rparr>) example_send (finish 3 2)) = Some (RespondOK ())
   \<and> st_sent (handleStatus (example_service\<lparr>relayCheck := False\<rparr>) example_send (finish 3 2)) = []
   \<and> unat (numSuccessRequestsToRelay (handleStatus example_service example_send (finish 3 2))) = 2
   \<and> st_reply (handleStatus example_service example_send (finish 3 2 @ finish 3 2)) \<noteq> None"
proof -
  have 1: "relayCheck example_service \<and> length (svc_relays example_service) < 2 ^ 32"
    by (simp add: example_service_def)
  have 2: "\<not> relayCheck (example_service\<lparr>relayCheck := False\<rparr>)" by simp
  have 3: "st_pcs (handleStatus example_service example_send (finish 3 2)) = [SDone, SDone]"
    by (simp add: status_eval example_service_def example_send_def)
  have 4: "length (svc_relays example_service) = 2" by (simp add: example_service_def)
  note off = handleStatus_counter_and_reply[of "example_service\<lparr>relayCheck := False\<rparr>" example_send "finish 3 2",
      THEN conjunct1, THEN mp, OF 2]
  note on = handleStatus_counter_and_reply[of example_service example_send "finish 3 2",
      THEN conjunct2, THEN mp, OF 1]
  have a: "unat (numSuccessRequestsToRelay (handleStatus example_service example_send (finish 3 2))) = 2"
    using on[THEN conjunct1] unfolding 3 by simp
  have b: "st_reply (handleStatus example_service example_send (finish 3 2 @ finish 3 2)) \<noteq> None"
    using on[THEN conjunct2, THEN conjunct2, THEN conjunct2, THEN conjunct2, THEN conjunct2]
    unfolding 4 .
  show ?thesis using off a b by blast
qed

subsection \<open>handleGetPayload: invariant and progress\<close>

definition in_cs :: "payload_pc \<Rightarrow> bool" where
  "in_cs p = (p = PLocked \<or> p = PCancel \<or> p = PWrite)"

definition written :: "payload_state \<Rightarrow> bool" where
  "written s = (pl_Data (gp_result s) \<noteq> None)"

definition writing :: "payload_state \<Rightarrow> bool" where
  "writing s = (case gp_mu s of None \<Rightarrow> False | Some i \<Rightarrow> gp_pcs s ! i = PWrite)"

definition winner ::
  "blockRef \<Rightarrow> (nat \<Rightarrow> GetPayloadResponse http_result) \<Rightarrow> payload_pc list
     \<Rightarrow> GetPayloadResponse \<Rightarrow> bool" where
  "winner payload resp pcs v =
     (\<exists>i<length pcs. pcs ! i = PDone \<and> checkPayload payload (resp i) \<and> v = dst (resp i))"

definition payload_inv ::
  "BoostService \<Rightarrow> blockRef \<Rightarrow> (nat \<Rightarrow> GetPayloadResponse http_result)
     \<Rightarrow> payload_state \<Rightarrow> bool" where
  "payload_inv m payload resp s \<longleftrightarrow>
     length (gp_pcs s) = length (svc_relays m)
   \<and> (\<forall>i. gp_mu s = Some i \<longrightarrow> i < length (gp_pcs s))
   \<and> (\<forall>i<length (gp_pcs s). in_cs (gp_pcs s ! i) \<longleftrightarrow> gp_mu s = Some i)
   \<and> (\<forall>i<length (gp_pcs s). gp_pcs s ! i = PLockWait \<or> in_cs (gp_pcs s ! i) \<longrightarrow> checkPayload payload (resp i))
   \<and> (\<forall>i<length (gp_pcs s). gp_pcs s ! i = PCancel \<longrightarrow> \<not> gp_cancelled s)
   \<and> (\<forall>i<length (gp_pcs s). gp_pcs s ! i = PWrite \<longrightarrow> gp_cancelled s \<and> \<not> written s)
   \<and> (written s \<longrightarrow> gp_cancelled s \<and> winner payload resp (gp_pcs s) (gp_result s))
   \<and> (gp_cancelled s \<and> gp_reply s = None \<longrightarrow> written s \<or> writing s)
   \<and> (\<forall>i<length (gp_pcs s). gp_pcs s ! i = PDone \<and> checkPayload payload (resp i) \<longrightarrow> gp_cancelled s)
   \<and> (\<forall>r. gp_reply s = Some r \<longrightarrow>
          list_all (\<lambda>p. p = PDone) (gp_pcs s)
        \<and> r = fst (payload_reply (svc_bids m) payload (gp_result s))
        \<and> gp_log s = snd (payload_reply (svc_bids m) payload (gp_result s))
        \<and> ((\<exists>i<length (gp_pcs s). checkPayload payload (resp i)) \<longrightarrow> written s))"

lemma payload_not_replied:
  assumes "payload_inv m payload resp s" "i < length (gp_pcs s)" "gp_pcs s ! i \<noteq> PDone"
  shows "gp_reply s = None"
proof (rule ccontr)
  assume "gp_reply s \<noteq> None"
  then have "list_all (\<lambda>p. p = PDone) (gp_pcs s)" using assms(1) by (auto simp: payload_inv_def)
  then show False using assms(2,3) by (auto simp: list_all_length)
qed

lemma checkPayload_data:
  "checkPayload payload r \<Longrightarrow> \<exists>d. pl_Data (dst r) = Some d \<and> pl_BlockHash d = blk_BlockHash payload
      \<and> pl_BlockHash d \<noteq> nilHash \<and> err r = None"
  by (auto simp: checkPayload_def split: if_splits option.splits)

lemma winner_update:
  "winner payload resp pcs v \<Longrightarrow> i < length pcs \<Longrightarrow> pcs ! i \<noteq> PDone \<Longrightarrow> winner payload resp (pcs[i := p]) v"
  unfolding winner_def by (metis length_list_update nth_list_update_neq)

lemma winner_intro:
  "i < length pcs \<Longrightarrow> checkPayload payload (resp i) \<Longrightarrow> winner payload resp (pcs[i := PDone]) (dst (resp i))"
  unfolding winner_def by (metis length_list_update nth_list_update_eq)

lemma payload_inv_task:
  assumes "payload_inv m payload resp s" "i < length (gp_pcs s)"
  shows "payload_inv m payload resp (payload_task m payload resp i s)"
proof (cases "gp_pcs s ! i")
  case PSend
  have nr: "gp_reply s = None" using payload_not_replied[OF assms] PSend by simp
  have w: "\<And>p v. winner payload resp (gp_pcs s) v \<Longrightarrow> winner payload resp ((gp_pcs s)[i := p]) v"
    using winner_update[OF _ assms(2)] PSend by simp
  show ?thesis
    using assms PSend nr w
    unfolding payload_inv_def payload_task_def
    by (auto simp: Let_def in_cs_def written_def writing_def nth_list_update split: option.splits)
next
  case PLockWait
  have nr: "gp_reply s = None" using payload_not_replied[OF assms] PLockWait by simp
  have w: "\<And>p v. winner payload resp (gp_pcs s) v \<Longrightarrow> winner payload resp ((gp_pcs s)[i := p]) v"
    using winner_update[OF _ assms(2)] PLockWait by simp
  show ?thesis
    using assms PLockWait nr w
    unfolding payload_inv_def payload_task_def
    by (auto simp: Let_def in_cs_def written_def writing_def nth_list_update split: option.splits)
next
  case PLocked
  have nr: "gp_reply s = None" using payload_not_replied[OF assms] PLocked by simp
  have w: "\<And>p v. winner payload resp (gp_pcs s) v \<Longrightarrow> winner payload resp ((gp_pcs s)[i := p]) v"
    using winner_update[OF _ assms(2)] PLocked by simp
  have h: "gp_mu s = Some i" using assms PLocked by (auto simp: payload_inv_def in_cs_def)
  show ?thesis
    using assms PLocked nr w h
    unfolding payload_inv_def payload_task_def
    by (auto simp: Let_def in_cs_def written_def writing_def nth_list_update split: option.splits)
next
  case PCancel
  have nr: "gp_reply s = None" using payload_not_replied[OF assms] PCancel by simp
  have w: "\<And>p v. winner payload resp (gp_pcs s) v \<Longrightarrow> winner payload resp ((gp_pcs s)[i := p]) v"
    using winner_update[OF _ assms(2)] PCancel by simp
  have h: "gp_mu s = Some i" using assms PCancel by (auto simp: payload_inv_def in_cs_def)
  show ?thesis
    using assms PCancel nr w h
    unfolding payload_inv_def payload_task_def
    by (auto simp: Let_def in_cs_def written_def writing_def nth_list_update split: option.splits)
next
  case PWrite
  have nr: "gp_reply s = None" using payload_not_replied[OF assms] PWrite by simp
  have h: "gp_mu s = Some i" using assms PWrite by (auto simp: payload_inv_def in_cs_def)
  have c: "checkPayload payload (resp i)" using assms PWrite by (auto simp: payload_inv_def in_cs_def)
  have w: "winner payload resp ((gp_pcs s)[i := PDone]) (dst (resp i))"
    using winner_intro[of i "gp_pcs s" payload resp] assms(2) c by simp
  show ?thesis
    using assms PWrite nr w h c checkPayload_data[OF c]
    unfolding payload_inv_def payload_task_def
    by (auto simp: Let_def in_cs_def written_def writing_def nth_list_update split: option.splits)
next
  case PDone
  then show ?thesis using assms by (simp add: payload_task_def)
qed


lemma payload_inv_handler:
  assumes "payload_inv m payload resp s"
  shows "payload_inv m payload resp (payload_handler m payload s)"
proof (cases "gp_reply s = None \<and> list_all (\<lambda>p. p = PDone) (gp_pcs s)")
  case False
  then have "payload_handler m payload s = s" by (auto simp: payload_handler_def)
  then show ?thesis using assms by simp
next
  case True
  then have alldone: "\<And>i. i < length (gp_pcs s) \<Longrightarrow> gp_pcs s ! i = PDone"
    by (simp add: list_all_length)
  have nw: "\<not> writing s"
    using assms alldone by (auto simp: writing_def payload_inv_def split: option.splits)
  have v: "(\<exists>i<length (gp_pcs s). checkPayload payload (resp i)) \<longrightarrow> written s"
  proof
    assume "\<exists>i<length (gp_pcs s). checkPayload payload (resp i)"
    then obtain i where "i < length (gp_pcs s)" "checkPayload payload (resp i)" by blast
    then have "gp_cancelled s" using assms alldone unfolding payload_inv_def by blast
    then show "written s" using assms True nw unfolding payload_inv_def by blast
  qed
  show ?thesis
    using assms True alldone v
    unfolding payload_inv_def payload_handler_def
    by (auto simp: written_def in_cs_def)
qed

lemma payload_inv_step:
  "payload_inv m payload resp s \<Longrightarrow> payload_inv m payload resp (payload_step m payload resp e s)"
  by (cases e) (simp_all add: payload_step_def payload_inv_task payload_inv_handler)

lemma payload_inv_init: "payload_inv m payload resp (payload_init (length (svc_relays m)))"
  by (simp add: payload_inv_def payload_init_def in_cs_def written_def)

lemma payload_inv_run:
  "payload_inv m payload resp s \<Longrightarrow> payload_inv m payload resp (run (payload_step m payload resp) es s)"
  by (rule run_invariant[where I = "payload_inv m payload resp"]) (simp_all add: payload_inv_step)

text \<open>A request whose pointers are all there starts the goroutines; any other ends the
  handler at once.\<close>

lemma handleGetPayload_present:
  "requestRef payload = Some p \<Longrightarrow>
     handleGetPayload m (Inr payload) resp es
       = run (payload_step m p resp) es (payload_init (length (svc_relays m)))"
  by (simp add: handleGetPayload_def)

lemma handleGetPayload_nil:
  "requestRef payload = None \<Longrightarrow>
     handleGetPayload m (Inr payload) resp es = (payload_init 0)\<lparr>gp_panicked := True\<rparr>"
  by (simp add: handleGetPayload_def)

lemma payload_inv_reachable:
  "requestRef payload = Some p \<Longrightarrow> payload_inv m p resp (handleGetPayload m (Inr payload) resp es)"
  by (simp add: handleGetPayload_present payload_inv_run payload_inv_init)

lemma payload_step_panicked [simp]: "gp_panicked (payload_step m p resp e s) = gp_panicked s"
proof (cases e)
  case (Task i)
  then show ?thesis
    by (simp add: payload_step_def payload_task_def Let_def split: payload_pc.splits)
next
  case Handler
  then show ?thesis by (simp add: payload_step_def payload_handler_def)
qed

lemma payload_run_panicked [simp]: "gp_panicked (run (payload_step m p resp) es s) = gp_panicked s"
  by (induction es arbitrary: s) simp_all

text \<open>Once written, the result stays.\<close>

lemma payload_result_stable_step:
  assumes "payload_inv m payload resp s" "written s"
  shows "gp_result (payload_step m payload resp e s) = gp_result s"
proof (cases e)
  case (Task i)
  show ?thesis
  proof (cases "i < length (gp_pcs s)")
    case True
    then show ?thesis
      using assms Task unfolding payload_inv_def
      by (cases "gp_pcs s ! i") (auto simp: payload_step_def payload_task_def Let_def)
  next
    case False
    then show ?thesis using Task by (simp add: payload_step_def)
  qed
next
  case Handler
  then show ?thesis by (simp add: payload_step_def payload_handler_def)
qed

lemma payload_result_stable:
  assumes "payload_inv m payload resp s" "written s"
  shows "gp_result (run (payload_step m payload resp) es s) = gp_result s"
proof -
  have "payload_inv m payload resp (run (payload_step m payload resp) es s)
        \<and> gp_result (run (payload_step m payload resp) es s) = gp_result s"
  proof (rule run_invariant[where I = "\<lambda>s'. payload_inv m payload resp s' \<and> gp_result s' = gp_result s"])
    fix e s' assume a: "payload_inv m payload resp s' \<and> gp_result s' = gp_result s"
    then have "written s'" using assms(2) by (simp add: written_def)
    then show "payload_inv m payload resp (payload_step m payload resp e s')
        \<and> gp_result (payload_step m payload resp e s') = gp_result s"
      using a payload_result_stable_step[of m payload resp s' e] payload_inv_step by auto
  next
    show "payload_inv m payload resp s \<and> gp_result s = gp_result s" using assms(1) by simp
  qed
  then show ?thesis by simp
qed

text \<open>A goroutine that holds the mutex with the context uncancelled is the one that writes.\<close>

definition winning :: "(nat \<Rightarrow> GetPayloadResponse http_result) \<Rightarrow> nat \<Rightarrow> payload_state \<Rightarrow> bool" where
  "winning resp i s =
     (gp_pcs s ! i = PLocked \<and> \<not> gp_cancelled s \<or> gp_pcs s ! i = PCancel \<or> gp_pcs s ! i = PWrite
      \<or> gp_pcs s ! i = PDone \<and> gp_cancelled s \<and> gp_result s = dst (resp i))"

lemma payload_winning_step:
  assumes "payload_inv m payload resp s" "i < length (gp_pcs s)" "checkPayload payload (resp i)"
    and "winning resp i s"
  shows "winning resp i (payload_step m payload resp e s)"
proof (cases e)
  case Handler
  have "gp_pcs s ! i \<noteq> PDone \<Longrightarrow> \<not> list_all (\<lambda>p. p = PDone) (gp_pcs s)"
    using assms(2) by (auto simp: list_all_length)
  then show ?thesis using assms(4) Handler
    by (auto simp: payload_step_def payload_handler_def winning_def)
next
  case (Task j)
  show ?thesis
  proof (cases "j < length (gp_pcs s)")
    case False
    then show ?thesis using Task assms(4) by (simp add: payload_step_def)
  next
    case True
    have wr: "gp_pcs s ! i = PDone \<Longrightarrow> gp_result s = dst (resp i) \<Longrightarrow> written s"
      using checkPayload_data[OF assms(3)] by (auto simp: written_def)
    have cs: "in_cs (gp_pcs s ! i) \<Longrightarrow> gp_mu s = Some i"
      using assms(1,2) unfolding payload_inv_def by blast
    have other: "j \<noteq> i \<Longrightarrow> in_cs (gp_pcs s ! i) \<Longrightarrow> \<not> in_cs (gp_pcs s ! j)"
      using assms(1,2) True unfolding payload_inv_def by auto
    show ?thesis
    proof (cases "j = i")
      case True
      then show ?thesis
        using assms Task unfolding payload_inv_def winning_def
        by (cases "gp_pcs s ! i") (auto simp: payload_step_def payload_task_def Let_def)
    next
      case False
      then show ?thesis
        using assms Task True wr cs other unfolding payload_inv_def winning_def
        by (cases "gp_pcs s ! j") (auto simp: payload_step_def payload_task_def Let_def in_cs_def written_def)
    qed
  qed
qed


lemma payload_winning_run:
  assumes "payload_inv m payload resp s" "i < length (gp_pcs s)" "checkPayload payload (resp i)"
    and "winning resp i s"
  shows "winning resp i (run (payload_step m payload resp) es s)"
proof -
  let ?I = "\<lambda>s'. payload_inv m payload resp s' \<and> length (gp_pcs s') = length (gp_pcs s) \<and> winning resp i s'"
  have "?I (run (payload_step m payload resp) es s)"
  proof (rule run_invariant[where I = ?I])
    fix e s' assume a: "?I s'"
    then have "payload_inv m payload resp (payload_step m payload resp e s')"
      by (simp add: payload_inv_step)
    moreover have "length (gp_pcs (payload_step m payload resp e s')) = length (gp_pcs s)"
      using a calculation by (simp add: payload_inv_def)
    moreover have "winning resp i (payload_step m payload resp e s')"
      using a assms(2,3) by (intro payload_winning_step) simp_all
    ultimately show "?I (payload_step m payload resp e s')" by simp
  next
    show "?I s" using assms by simp
  qed
  then show ?thesis by simp
qed

text \<open>Progress: two rounds of every goroutine and the handler give a reply.\<close>

lemma payload_step_length [simp]:
  "length (gp_pcs (payload_step m payload resp e s)) = length (gp_pcs s)"
  by (cases e)
     (auto simp: payload_step_def payload_task_def payload_handler_def Let_def split: payload_pc.splits)

lemma payload_run_length [simp]:
  "length (gp_pcs (run (payload_step m payload resp) es s)) = length (gp_pcs s)"
  by (induction es arbitrary: s) simp_all

lemma payload_step_frame:
  "j \<noteq> i \<Longrightarrow> gp_pcs (payload_step m payload resp (Task i) s) ! j = gp_pcs s ! j"
  by (auto simp: payload_step_def payload_task_def Let_def split: payload_pc.splits)

lemma payload_run_frame:
  "j \<noteq> i \<Longrightarrow> gp_pcs (run (payload_step m payload resp) (replicate k (Task i)) s) ! j = gp_pcs s ! j"
  by (induction k arbitrary: s) (simp_all add: payload_step_frame)

lemma payload_five:
  assumes "payload_inv m payload resp s" "i < length (gp_pcs s)" "gp_mu s = None \<or> gp_mu s = Some i"
  shows "gp_pcs (run (payload_step m payload resp) (replicate 5 (Task i)) s) ! i = PDone
       \<and> gp_mu (run (payload_step m payload resp) (replicate 5 (Task i)) s) = None"
proof -
  have cs: "in_cs (gp_pcs s ! i) \<longleftrightarrow> gp_mu s = Some i"
    using assms(1,2) unfolding payload_inv_def by blast
  have five: "replicate 5 (Task i) = [Task i, Task i, Task i, Task i, Task i]"
    by (simp add: eval_nat_numeral)
  show ?thesis
    unfolding five using assms(2,3) cs
    by (cases "gp_pcs s ! i")
       (auto simp: payload_step_def payload_task_def Let_def in_cs_def)
qed

lemma payload_blocked_step:
  assumes "payload_inv m payload resp s" "gp_mu s = Some h" "h \<noteq> i"
  shows "gp_mu (payload_step m payload resp (Task i) s) = Some h"
proof (cases "i < length (gp_pcs s)")
  case False
  then show ?thesis using assms(2) by (simp add: payload_step_def)
next
  case True
  then have "\<not> in_cs (gp_pcs s ! i)" using assms unfolding payload_inv_def by auto
  then show ?thesis using assms(2) True
    by (cases "gp_pcs s ! i") (auto simp: payload_step_def payload_task_def Let_def in_cs_def)
qed

lemma payload_blocked_run:
  assumes "payload_inv m payload resp s" "gp_mu s = Some h" "h \<noteq> i"
  shows "gp_mu (run (payload_step m payload resp) (replicate k (Task i)) s) = Some h"
  using assms
proof (induction k arbitrary: s)
  case 0
  then show ?case by simp
next
  case (Suc k)
  then show ?case
    using payload_blocked_step[of m payload resp s h i] payload_inv_step[of m payload resp s "Task i"]
    by simp
qed

definition rounds :: "nat \<Rightarrow> nat \<Rightarrow> event list" where
  "rounds k n = concat (map (\<lambda>i. replicate k (Task i)) [0..<n])"

lemma rounds_Suc: "rounds k (Suc n) = rounds k n @ replicate k (Task n)"
  by (simp add: rounds_def)

lemma finish_rounds: "finish k n = rounds k n @ [Handler]"
  by (simp add: finish_def rounds_def)

lemma payload_round_frees:
  assumes "payload_inv m payload resp s" "k \<le> length (gp_pcs s)"
  shows "\<forall>h. gp_mu (run (payload_step m payload resp) (rounds 5 k) s) = Some h \<longrightarrow> k \<le> h"
  using assms(2)
proof (induction k)
  case 0
  then show ?case by simp
next
  case (Suc k)
  let ?s = "run (payload_step m payload resp) (rounds 5 k) s"
  have inv: "payload_inv m payload resp ?s" using assms(1) by (rule payload_inv_run)
  have IH: "\<forall>h. gp_mu ?s = Some h \<longrightarrow> k \<le> h" using Suc by simp
  have k: "k < length (gp_pcs ?s)" using Suc.prems by simp
  show ?case
  proof (cases "gp_mu ?s = None \<or> gp_mu ?s = Some k")
    case True
    then show ?thesis using payload_five[OF inv k] by (simp add: rounds_Suc run_append)
  next
    case False
    then obtain h where h: "gp_mu ?s = Some h" "h \<noteq> k" by auto
    then have "k < h" using IH by (simp add: le_neq_implies_less)
    moreover have "gp_mu (run (payload_step m payload resp) (replicate 5 (Task k)) ?s) = Some h"
      using payload_blocked_run[OF inv h] .
    ultimately show ?thesis by (simp add: rounds_Suc run_append)
  qed
qed

lemma payload_round_finishes:
  assumes "payload_inv m payload resp s" "gp_mu s = None" "k \<le> length (gp_pcs s)"
  shows "gp_mu (run (payload_step m payload resp) (rounds 5 k) s) = None
       \<and> (\<forall>i<k. gp_pcs (run (payload_step m payload resp) (rounds 5 k) s) ! i = PDone)"
  using assms(3)
proof (induction k)
  case 0
  then show ?case using assms(2) by (simp add: rounds_def)
next
  case (Suc k)
  let ?s = "run (payload_step m payload resp) (rounds 5 k) s"
  have inv: "payload_inv m payload resp ?s" using assms(1) by (rule payload_inv_run)
  have IH: "gp_mu ?s = None" "\<forall>i<k. gp_pcs ?s ! i = PDone" using Suc by simp_all
  have k: "k < length (gp_pcs ?s)" using Suc.prems by simp
  have five: "gp_pcs (run (payload_step m payload resp) (replicate 5 (Task k)) ?s) ! k = PDone"
    "gp_mu (run (payload_step m payload resp) (replicate 5 (Task k)) ?s) = None"
    using payload_five[OF inv k] IH(1) by simp_all
  have "\<forall>i<Suc k. gp_pcs (run (payload_step m payload resp) (replicate 5 (Task k)) ?s) ! i = PDone"
  proof (intro allI impI)
    fix i assume "i < Suc k"
    then consider "i < k" | "i = k" by linarith
    then show "gp_pcs (run (payload_step m payload resp) (replicate 5 (Task k)) ?s) ! i = PDone"
    proof cases
      case 1
      then show ?thesis using IH(2) payload_run_frame[of i k m payload resp 5 ?s] by simp
    next
      case 2
      then show ?thesis using five(1) by simp
    qed
  qed
  then show ?case using five(2) by (simp add: rounds_Suc run_append)
qed

lemma payload_handler_frame [simp]:
  "gp_mu (payload_handler m payload s) = gp_mu s" "gp_pcs (payload_handler m payload s) = gp_pcs s"
  by (simp_all add: payload_handler_def)

lemma payload_replies:
  assumes "payload_inv m payload resp s"
  shows "gp_reply (run (payload_step m payload resp)
            (finish 5 (length (gp_pcs s)) @ finish 5 (length (gp_pcs s))) s) \<noteq> None"
proof -
  let ?n = "length (gp_pcs s)"
  let ?step = "payload_step m payload resp"
  let ?s1 = "run ?step (rounds 5 ?n) s"
  let ?s2 = "payload_handler m payload ?s1"
  let ?s3 = "run ?step (rounds 5 ?n) ?s2"
  have inv1: "payload_inv m payload resp ?s1" using assms by (rule payload_inv_run)
  have "\<forall>h. gp_mu ?s1 = Some h \<longrightarrow> ?n \<le> h" using payload_round_frees[OF assms, of ?n] by simp
  moreover have "\<forall>h. gp_mu ?s1 = Some h \<longrightarrow> h < length (gp_pcs ?s1)"
    using inv1 unfolding payload_inv_def by blast
  ultimately have free1: "gp_mu ?s1 = None" by (cases "gp_mu ?s1") auto
  have inv2: "payload_inv m payload resp ?s2" using inv1 by (rule payload_inv_handler)
  have "\<forall>i<?n. gp_pcs ?s3 ! i = PDone"
    using payload_round_finishes[OF inv2, of ?n] free1 by simp
  then have "list_all (\<lambda>p. p = PDone) (gp_pcs ?s3)" by (simp add: list_all_length)
  then have "gp_reply (payload_handler m payload ?s3) \<noteq> None" by (simp add: payload_handler_def)
  then show ?thesis
    by (simp add: finish_rounds run_append payload_step_def)
qed

subsection \<open>handleGetPayload: the claims\<close>

lemma handleGetPayload_append:
  "requestRef payload = Some p \<Longrightarrow>
     handleGetPayload m (Inr payload) resp (es @ es')
       = run (payload_step m p resp) es' (handleGetPayload m (Inr payload) resp es)"
  by (simp add: handleGetPayload_present run_append)

lemma handleGetPayload_length:
  "requestRef payload = Some p \<Longrightarrow>
     length (gp_pcs (handleGetPayload m (Inr payload) resp es)) = length (svc_relays m)"
  by (simp add: handleGetPayload_present payload_init_def)

lemma payload_reply_written:
  assumes "winner payload resp pcs v"
  shows "payload_reply b payload v = (RespondOK v, None)"
    and "\<exists>d. pl_Data v = Some d \<and> pl_BlockHash d = blk_BlockHash payload"
proof -
  from assms obtain i where "checkPayload payload (resp i)" "v = dst (resp i)"
    by (auto simp: winner_def)
  then obtain d where d: "pl_Data v = Some d" "pl_BlockHash d = blk_BlockHash payload" "pl_BlockHash d \<noteq> nilHash"
    using checkPayload_data by blast
  then show "payload_reply b payload v = (RespondOK v, None)" by (simp add: payload_reply_def)
  show "\<exists>d. pl_Data v = Some d \<and> pl_BlockHash d = blk_BlockHash payload" using d by blast
qed

text \<open>For a request whose pointers are all there.\<close>

lemma getPayload_reply_present:
  assumes ref: "requestRef payload = Some p"
  shows
  "(\<forall>r. gp_reply (handleGetPayload m (Inr payload) resp es) = Some r \<longrightarrow>
       ((\<exists>i<length (svc_relays m). checkPayload p (resp i)) \<longrightarrow>
            r = RespondOK (gp_result (handleGetPayload m (Inr payload) resp es))
          \<and> status_code r = 200
          \<and> (\<exists>d. pl_Data (gp_result (handleGetPayload m (Inr payload) resp es)) = Some d
                 \<and> pl_BlockHash d = blk_BlockHash p)
          \<and> (\<exists>i<length (svc_relays m). checkPayload p (resp i)
                 \<and> gp_result (handleGetPayload m (Inr payload) resp es) = dst (resp i)))
     \<and> ((\<forall>i<length (svc_relays m). \<not> checkPayload p (resp i)) \<longrightarrow>
            r = RespondError 502 errNoSuccessfulRelayResponse
          \<and> gp_log (handleGetPayload m (Inr payload) resp es)
              = Some (Join (relays (bids_load (blk_Slot p, Hash_String (blk_BlockHash p))
                                       (svc_bids m))) '', '')
          \<and> (map_of (svc_bids m) (blk_Slot p, Hash_String (blk_BlockHash p)) = None \<longrightarrow>
                bids_load (blk_Slot p, Hash_String (blk_BlockHash p)) (svc_bids m) = bidResp_zero
              \<and> gp_log (handleGetPayload m (Inr payload) resp es) = Some [])))
   \<and> gp_reply (handleGetPayload m (Inr payload) resp
         (es @ finish 5 (length (svc_relays m)) @ finish 5 (length (svc_relays m)))) \<noteq> None"
proof (intro conjI allI impI)
  let ?s = "handleGetPayload m (Inr payload) resp es"
  let ?n = "length (svc_relays m)"
  let ?key = "(blk_Slot p, Hash_String (blk_BlockHash p))"
  have inv: "payload_inv m p resp ?s" using ref by (rule payload_inv_reachable)
  show "gp_reply (handleGetPayload m (Inr payload) resp (es @ finish 5 ?n @ finish 5 ?n)) \<noteq> None"
    using payload_replies[OF inv] by (simp add: handleGetPayload_append[OF ref] handleGetPayload_length[OF ref])
  fix r assume r: "gp_reply ?s = Some r"
  have R: "r = fst (payload_reply (svc_bids m) p (gp_result ?s))"
    "gp_log ?s = snd (payload_reply (svc_bids m) p (gp_result ?s))"
    "(\<exists>i<?n. checkPayload p (resp i)) \<longrightarrow> written ?s"
    using inv r unfolding payload_inv_def by (simp_all add: handleGetPayload_length[OF ref])
  {
    assume "\<exists>i<?n. checkPayload p (resp i)"
    then have "written ?s" using R(3) by simp
    then have w: "winner p resp (gp_pcs ?s) (gp_result ?s)" using inv unfolding payload_inv_def by blast
    show "r = RespondOK (gp_result ?s)" using R(1) payload_reply_written(1)[OF w] by simp
    then show "status_code r = 200" by simp
    show "\<exists>d. pl_Data (gp_result ?s) = Some d \<and> pl_BlockHash d = blk_BlockHash p"
      using payload_reply_written(2)[OF w] .
    show "\<exists>i<?n. checkPayload p (resp i) \<and> gp_result ?s = dst (resp i)"
      using w by (auto simp: winner_def handleGetPayload_length[OF ref])
  }
  {
    assume none: "\<forall>i<?n. \<not> checkPayload p (resp i)"
    have "\<not> written ?s"
    proof
      assume "written ?s"
      then have "winner p resp (gp_pcs ?s) (gp_result ?s)" using inv unfolding payload_inv_def by blast
      then show False using none by (auto simp: winner_def handleGetPayload_length[OF ref])
    qed
    then have nd: "pl_Data (gp_result ?s) = None" by (simp add: written_def)
    show "r = RespondError 502 errNoSuccessfulRelayResponse"
      using R(1) nd by (simp add: payload_reply_def StatusBadGateway_def Let_def)
    show log: "gp_log ?s = Some (Join (relays (bids_load ?key (svc_bids m))) '', '')"
      using R(2) nd by (simp add: payload_reply_def Let_def)
    {
      assume miss: "map_of (svc_bids m) ?key = None"
      then show z: "bids_load ?key (svc_bids m) = bidResp_zero" by (simp add: bids_load_def)
      show "gp_log ?s = Some []" unfolding log z by (simp add: bidResp_zero_def)
    }
  }
qed

text \<open>C4: the handler follows the pointers of the decoded request (its message, the body
  of the message, the execution payload header of the body) before anything else and
  without a test, and what it does depends on them:
  \<^item> for a decoded request in which one of these is nil, as the body \<^verbatim>\<open>{}\<close> gives, the handler
    ends in a panic under every schedule: no goroutine is started, no request is sent to a
    relay, the cache is not read, and the handler writes neither a 200 nor a 502, whatever
    the relays would have answered;
  \<^item> for a decoded request in which they are all there, the handler does not panic and,
    whenever it has replied: if the response of some relay passed the
    goroutine's checks, the reply is 200 with the shared result, which is the response of
    such a relay and has the block hash of the request; if no response passed, the reply is
    502 \<^verbatim>\<open>no successful relay response\<close> and the handler has logged the relays of the bid
    record read from the cache at the request's slot and block hash, a key that is not
    there giving the zero record (with no relays) and no error. After every interleaving,
    the goroutines and the handler left to run give a reply.\<close>

theorem getPayload_reply:
  "(requestRef payload = None \<longrightarrow>
       gp_panicked (handleGetPayload m (Inr payload) resp es)
     \<and> gp_reply (handleGetPayload m (Inr payload) resp es) = None
     \<and> gp_log (handleGetPayload m (Inr payload) resp es) = None
     \<and> gp_sent (handleGetPayload m (Inr payload) resp es) = []
     \<and> gp_pcs (handleGetPayload m (Inr payload) resp es) = [])
 \<and> (\<forall>p. requestRef payload = Some p \<longrightarrow>
     \<not> gp_panicked (handleGetPayload m (Inr payload) resp es)
   \<and> (\<forall>r. gp_reply (handleGetPayload m (Inr payload) resp es) = Some r \<longrightarrow>
       ((\<exists>i<length (svc_relays m). checkPayload p (resp i)) \<longrightarrow>
            r = RespondOK (gp_result (handleGetPayload m (Inr payload) resp es))
          \<and> status_code r = 200
          \<and> (\<exists>d. pl_Data (gp_result (handleGetPayload m (Inr payload) resp es)) = Some d
                 \<and> pl_BlockHash d = blk_BlockHash p)
          \<and> (\<exists>i<length (svc_relays m). checkPayload p (resp i)
                 \<and> gp_result (handleGetPayload m (Inr payload) resp es) = dst (resp i)))
     \<and> ((\<forall>i<length (svc_relays m). \<not> checkPayload p (resp i)) \<longrightarrow>
            r = RespondError 502 errNoSuccessfulRelayResponse
          \<and> gp_log (handleGetPayload m (Inr payload) resp es)
              = Some (Join (relays (bids_load (blk_Slot p, Hash_String (blk_BlockHash p))
                                       (svc_bids m))) '', '')
          \<and> (map_of (svc_bids m) (blk_Slot p, Hash_String (blk_BlockHash p)) = None \<longrightarrow>
                bids_load (blk_Slot p, Hash_String (blk_BlockHash p)) (svc_bids m) = bidResp_zero
              \<and> gp_log (handleGetPayload m (Inr payload) resp es) = Some [])))
   \<and> gp_reply (handleGetPayload m (Inr payload) resp
         (es @ finish 5 (length (svc_relays m)) @ finish 5 (length (svc_relays m)))) \<noteq> None)"
proof -
  have A: "requestRef payload = None \<longrightarrow>
       gp_panicked (handleGetPayload m (Inr payload) resp es)
     \<and> gp_reply (handleGetPayload m (Inr payload) resp es) = None
     \<and> gp_log (handleGetPayload m (Inr payload) resp es) = None
     \<and> gp_sent (handleGetPayload m (Inr payload) resp es) = []
     \<and> gp_pcs (handleGetPayload m (Inr payload) resp es) = []"
    by (simp add: handleGetPayload_nil payload_init_def)
  have B: "\<forall>p. requestRef payload = Some p \<longrightarrow>
     \<not> gp_panicked (handleGetPayload m (Inr payload) resp es)
   \<and> (\<forall>r. gp_reply (handleGetPayload m (Inr payload) resp es) = Some r \<longrightarrow>
       ((\<exists>i<length (svc_relays m). checkPayload p (resp i)) \<longrightarrow>
            r = RespondOK (gp_result (handleGetPayload m (Inr payload) resp es))
          \<and> status_code r = 200
          \<and> (\<exists>d. pl_Data (gp_result (handleGetPayload m (Inr payload) resp es)) = Some d
                 \<and> pl_BlockHash d = blk_BlockHash p)
          \<and> (\<exists>i<length (svc_relays m). checkPayload p (resp i)
                 \<and> gp_result (handleGetPayload m (Inr payload) resp es) = dst (resp i)))
     \<and> ((\<forall>i<length (svc_relays m). \<not> checkPayload p (resp i)) \<longrightarrow>
            r = RespondError 502 errNoSuccessfulRelayResponse
          \<and> gp_log (handleGetPayload m (Inr payload) resp es)
              = Some (Join (relays (bids_load (blk_Slot p, Hash_String (blk_BlockHash p))
                                       (svc_bids m))) '', '')
          \<and> (map_of (svc_bids m) (blk_Slot p, Hash_String (blk_BlockHash p)) = None \<longrightarrow>
                bids_load (blk_Slot p, Hash_String (blk_BlockHash p)) (svc_bids m) = bidResp_zero
              \<and> gp_log (handleGetPayload m (Inr payload) resp es) = Some [])))
   \<and> gp_reply (handleGetPayload m (Inr payload) resp
         (es @ finish 5 (length (svc_relays m)) @ finish 5 (length (svc_relays m)))) \<noteq> None"
  proof (intro allI impI)
    fix p assume ref: "requestRef payload = Some p"
    have 1: "\<not> gp_panicked (handleGetPayload m (Inr payload) resp es)"
      by (simp add: handleGetPayload_present[OF ref] payload_init_def)
    note 2 = getPayload_reply_present[OF ref, of m resp es]
    show "\<not> gp_panicked (handleGetPayload m (Inr payload) resp es)
   \<and> (\<forall>r. gp_reply (handleGetPayload m (Inr payload) resp es) = Some r \<longrightarrow>
       ((\<exists>i<length (svc_relays m). checkPayload p (resp i)) \<longrightarrow>
            r = RespondOK (gp_result (handleGetPayload m (Inr payload) resp es))
          \<and> status_code r = 200
          \<and> (\<exists>d. pl_Data (gp_result (handleGetPayload m (Inr payload) resp es)) = Some d
                 \<and> pl_BlockHash d = blk_BlockHash p)
          \<and> (\<exists>i<length (svc_relays m). checkPayload p (resp i)
                 \<and> gp_result (handleGetPayload m (Inr payload) resp es) = dst (resp i)))
     \<and> ((\<forall>i<length (svc_relays m). \<not> checkPayload p (resp i)) \<longrightarrow>
            r = RespondError 502 errNoSuccessfulRelayResponse
          \<and> gp_log (handleGetPayload m (Inr payload) resp es)
              = Some (Join (relays (bids_load (blk_Slot p, Hash_String (blk_BlockHash p))
                                       (svc_bids m))) '', '')
          \<and> (map_of (svc_bids m) (blk_Slot p, Hash_String (blk_BlockHash p)) = None \<longrightarrow>
                bids_load (blk_Slot p, Hash_String (blk_BlockHash p)) (svc_bids m) = bidResp_zero
              \<and> gp_log (handleGetPayload m (Inr payload) resp es) = Some [])))
   \<and> gp_reply (handleGetPayload m (Inr payload) resp
         (es @ finish 5 (length (svc_relays m)) @ finish 5 (length (svc_relays m)))) \<noteq> None"
      using 1 2 by (rule conjI)
  qed
  show ?thesis using A B by (rule conjI)
qed


text \<open>C5: for a request that starts the goroutines (one whose pointers are all there; any
  other ends the handler before the first goroutine), at every point of every interleaving
  (\<open>es\<close>), and whatever follows (\<open>es'\<close>): a
  goroutine that holds the mutex with the context uncancelled has a response that passed the
  checks, nothing has been written yet, and once it has ended the shared result is its
  response and the context is cancelled; a result, once written, is never changed; a
  goroutine that holds the mutex and finds the context cancelled finds the result already
  written (and so leaves it); a goroutine is between \<^verbatim>\<open>Lock\<close> and \<^verbatim>\<open>Unlock\<close> iff it holds the
  mutex, so at most one is; and the handler has replied only if every goroutine has ended.\<close>

theorem getPayload_race:
  assumes ref: "requestRef payload = Some p"
  shows
  "(\<forall>i<length (svc_relays m).
       gp_pcs (handleGetPayload m (Inr payload) resp es) ! i = PLocked
         \<and> \<not> gp_cancelled (handleGetPayload m (Inr payload) resp es) \<longrightarrow>
           checkPayload p (resp i)
         \<and> gp_mu (handleGetPayload m (Inr payload) resp es) = Some i
         \<and> pl_Data (gp_result (handleGetPayload m (Inr payload) resp es)) = None
         \<and> (gp_pcs (handleGetPayload m (Inr payload) resp (es @ es')) ! i = PDone \<longrightarrow>
               gp_result (handleGetPayload m (Inr payload) resp (es @ es')) = dst (resp i)
             \<and> gp_cancelled (handleGetPayload m (Inr payload) resp (es @ es'))))
   \<and> (pl_Data (gp_result (handleGetPayload m (Inr payload) resp es)) \<noteq> None \<longrightarrow>
         gp_cancelled (handleGetPayload m (Inr payload) resp es)
       \<and> gp_result (handleGetPayload m (Inr payload) resp (es @ es'))
           = gp_result (handleGetPayload m (Inr payload) resp es))
   \<and> (\<forall>i<length (svc_relays m).
         gp_pcs (handleGetPayload m (Inr payload) resp es) ! i = PLocked
           \<and> gp_cancelled (handleGetPayload m (Inr payload) resp es) \<longrightarrow>
         pl_Data (gp_result (handleGetPayload m (Inr payload) resp es)) \<noteq> None)
   \<and> (\<forall>i<length (svc_relays m).
         (gp_pcs (handleGetPayload m (Inr payload) resp es) ! i \<in> {PLocked, PCancel, PWrite})
           = (gp_mu (handleGetPayload m (Inr payload) resp es) = Some i))
   \<and> (gp_reply (handleGetPayload m (Inr payload) resp es) \<noteq> None \<longrightarrow>
         list_all (\<lambda>p. p = PDone) (gp_pcs (handleGetPayload m (Inr payload) resp es)))"
proof (intro conjI allI impI)
  let ?s = "handleGetPayload m (Inr payload) resp es"
  let ?s' = "handleGetPayload m (Inr payload) resp (es @ es')"
  let ?n = "length (svc_relays m)"
  have inv: "payload_inv m p resp ?s" using ref by (rule payload_inv_reachable)
  have len: "length (gp_pcs ?s) = ?n" using ref by (rule handleGetPayload_length)
  have s': "?s' = run (payload_step m p resp) es' ?s" using ref by (rule handleGetPayload_append)
  note I = inv[unfolded payload_inv_def len]
  {
    fix i assume i: "i < ?n" and a: "gp_pcs ?s ! i = PLocked \<and> \<not> gp_cancelled ?s"
    have cs: "in_cs (gp_pcs ?s ! i)" using a by (simp add: in_cs_def)
    show c: "checkPayload p (resp i)" using I i cs by blast
    show "gp_mu ?s = Some i" using I i cs by blast
    have "\<not> written ?s" using I a by blast
    then show "pl_Data (gp_result ?s) = None" by (simp add: written_def)
    have w: "winning resp i ?s" using a by (simp add: winning_def)
    have w': "winning resp i ?s'"
      unfolding s' using payload_winning_run[OF inv _ c w] i by (simp add: len)
    {
      assume "gp_pcs ?s' ! i = PDone"
      then show "gp_result ?s' = dst (resp i)" "gp_cancelled ?s'" using w' by (auto simp: winning_def)
    }
  }
  {
    assume "pl_Data (gp_result ?s) \<noteq> None"
    then have w: "written ?s" by (simp add: written_def)
    then show "gp_cancelled ?s" using I by blast
    show "gp_result ?s' = gp_result ?s" unfolding s' using payload_result_stable[OF inv w] .
  }
  {
    fix i assume i: "i < ?n" and a: "gp_pcs ?s ! i = PLocked \<and> gp_cancelled ?s"
    have nr: "gp_reply ?s = None" using payload_not_replied[OF inv, of i] i a by (simp add: len)
    have "in_cs (gp_pcs ?s ! i)" using a by (simp add: in_cs_def)
    then have "gp_mu ?s = Some i" using I i by blast
    then have "\<not> writing ?s" using a by (simp add: writing_def)
    then have "written ?s" using I a nr by blast
    then show "pl_Data (gp_result ?s) \<noteq> None" by (simp add: written_def)
  }
  {
    fix i assume i: "i < ?n"
    have "in_cs (gp_pcs ?s ! i) = (gp_mu ?s = Some i)" using I i by blast
    then show "(gp_pcs ?s ! i \<in> {PLocked, PCancel, PWrite}) = (gp_mu ?s = Some i)"
      by (simp add: in_cs_def)
  }
  {
    assume "gp_reply ?s \<noteq> None"
    then show "list_all (\<lambda>p. p = PDone) (gp_pcs ?s)" using I by blast
  }
qed


text \<open>A request for the block of the second relay's bid at slot 42, and the request that
  the body \<^verbatim>\<open>{}\<close> decodes to.\<close>

definition example_block :: "SignedBlindedBeaconBlock option" where
  "example_block =
     Some \<lparr>sbb_Message = Some \<lparr>msg_Slot = 42,
        msg_Body = Some \<lparr>body_ExecutionPayloadHeader =
          Some \<lparr>ParentHash = example_parent, BlockHash = example_hashB, BlockNumber = 7,
                TransactionsRoot = replicate 32 34\<rparr>\<rparr>\<rparr>\<rparr>"

definition example_ref :: blockRef where
  "example_ref = \<lparr>blk_Slot = 42, blk_BlockHash = example_hashB\<rparr>"

definition example_empty :: "SignedBlindedBeaconBlock option" where
  "example_empty = Some \<lparr>sbb_Message = None\<rparr>"

lemma example_requestRef [simp]:
  "requestRef example_block = Some example_ref"
  "requestRef example_empty = None"
  by (simp_all add: requestRef_def example_block_def example_ref_def example_empty_def)

definition example_payload :: "nat \<Rightarrow> GetPayloadResponse http_result" where
  "example_payload i =
     \<lparr>code = 200, err = None,
      dst = \<lparr>pl_Version = (if i = 0 then ''from relay1'' else ''from relay2''),
             pl_Data = Some \<lparr>pl_BlockHash = example_hashB\<rparr>\<rparr>\<rparr>"

definition example_withheld :: "nat \<Rightarrow> GetPayloadResponse http_result" where
  "example_withheld i =
     \<lparr>code = 0, err = Some ''could not send request'', dst = \<lparr>pl_Version = [], pl_Data = None\<rparr>\<rparr>"

definition example_cached :: BoostService where
  "example_cached = example_service
     \<lparr>svc_bids := [((42, Hash_String example_hashB),
                     \<lparr>bid_t = 1001, response = dst (example_resp 1),
                      blockHash = Hash_String example_hashB, relays = [''http://relay2'']\<rparr>)]\<rparr>"

lemma example_hashB_not_nil: "example_hashB \<noteq> nilHash"
  by code_simp

lemma example_checkPayload [simp]:
  "checkPayload example_ref (example_payload i)"
  "\<not> checkPayload example_ref (example_withheld i)"
  by (simp_all add: checkPayload_def example_ref_def example_payload_def example_withheld_def
        example_hashB_not_nil)

lemmas payload_eval = handleGetPayload_def payload_init_def finish_def payload_step_def payload_task_def
  payload_handler_def Let_def upt_rec eval_nat_numeral

lemma example_payload_run:
  "gp_reply (handleGetPayload example_service (Inr example_block) example_payload (finish 5 2))
     = Some (RespondOK (dst (example_payload 0)))"
  by (simp add: payload_eval example_service_def payload_reply_def,
      simp add: example_payload_def example_hashB_not_nil)

lemma example_withheld_run:
  "gp_reply (handleGetPayload example_cached (Inr example_block) example_withheld (finish 5 2))
     = Some (RespondError 502 errNoSuccessfulRelayResponse)"
  by (simp add: payload_eval example_cached_def example_service_def payload_reply_def StatusBadGateway_def)

theorem getPayload_reply_witness:
  "gp_panicked (handleGetPayload example_service (Inr example_empty) example_payload (finish 5 2))
   \<and> gp_reply (handleGetPayload example_service (Inr example_empty) example_payload (finish 5 2)) = None
   \<and> gp_sent (handleGetPayload example_service (Inr example_empty) example_payload (finish 5 2)) = []
   \<and> (\<exists>i<length (svc_relays example_service). checkPayload example_ref (example_payload i))
   \<and> gp_reply (handleGetPayload example_service (Inr example_block) example_payload (finish 5 2))
     = Some (RespondOK (dst (example_payload 0)))
   \<and> (\<exists>d. pl_Data (dst (example_payload 0)) = Some d \<and> pl_BlockHash d = blk_BlockHash example_ref)
   \<and> gp_reply (handleGetPayload example_cached (Inr example_block) example_withheld (finish 5 2))
       = Some (RespondError 502 errNoSuccessfulRelayResponse)
   \<and> gp_log (handleGetPayload example_cached (Inr example_block) example_withheld (finish 5 2))
       = Some ''http://relay2''"
proof -
  have n: "length (svc_relays example_service) = 2" "length (svc_relays example_cached) = 2"
    by (simp_all add: example_service_def example_cached_def)
  have 1: "\<exists>i<length (svc_relays example_service). checkPayload example_ref (example_payload i)"
    unfolding n by (intro exI[of _ 0]) simp
  have 2: "\<forall>i<length (svc_relays example_cached). \<not> checkPayload example_ref (example_withheld i)"
    by simp
  note nil = getPayload_reply[where payload = example_empty and m = example_service
      and resp = example_payload and es = "finish 5 2", THEN conjunct1, THEN mp, OF example_requestRef(2)]
  note ok = getPayload_reply[where payload = example_block and m = example_service
      and resp = example_payload and es = "finish 5 2",
      THEN conjunct2, THEN spec, THEN mp, OF example_requestRef(1), THEN conjunct2, THEN conjunct1,
      rule_format, OF example_payload_run, THEN conjunct1, rule_format, OF 1]
  note ko = getPayload_reply[where payload = example_block and m = example_cached
      and resp = example_withheld and es = "finish 5 2",
      THEN conjunct2, THEN spec, THEN mp, OF example_requestRef(1), THEN conjunct2, THEN conjunct1,
      rule_format, OF example_withheld_run, THEN conjunct2, THEN mp, OF 2]
  have a: "gp_result (handleGetPayload example_service (Inr example_block) example_payload (finish 5 2))
      = dst (example_payload 0)"
    using ok[THEN conjunct1] by simp
  have b: "\<exists>d. pl_Data (dst (example_payload 0)) = Some d \<and> pl_BlockHash d = blk_BlockHash example_ref"
    using ok[THEN conjunct2, THEN conjunct2, THEN conjunct1] unfolding a .
  have c: "bids_load (blk_Slot example_ref, Hash_String (blk_BlockHash example_ref)) (svc_bids example_cached)
     = \<lparr>bid_t = 1001, response = dst (example_resp 1),
                      blockHash = Hash_String example_hashB, relays = [''http://relay2'']\<rparr>"
    by (simp add: bids_load_def example_cached_def example_ref_def)
  have d: "gp_log (handleGetPayload example_cached (Inr example_block) example_withheld (finish 5 2))
       = Some ''http://relay2''"
    using ko[THEN conjunct2, THEN conjunct1] unfolding c by simp
  show ?thesis using nil 1 example_payload_run b example_withheld_run d by blast
qed


theorem getPayload_race_witness:
  "gp_pcs (handleGetPayload example_service (Inr example_block) example_payload [Task 0, Task 1, Task 1]) ! 1
     = PLocked
   \<and> \<not> gp_cancelled (handleGetPayload example_service (Inr example_block) example_payload
          [Task 0, Task 1, Task 1])
   \<and> gp_result (handleGetPayload example_service (Inr example_block) example_payload
          ([Task 0, Task 1, Task 1] @ finish 5 2 @ finish 5 2)) = dst (example_payload 1)
   \<and> gp_cancelled (handleGetPayload example_service (Inr example_block) example_payload
          ([Task 0, Task 1, Task 1] @ finish 5 2 @ finish 5 2))
   \<and> gp_reply (handleGetPayload example_service (Inr example_block) example_payload
          ([Task 0, Task 1, Task 1] @ finish 5 2 @ finish 5 2)) = Some (RespondOK (dst (example_payload 1)))"
proof -
  let ?s = "handleGetPayload example_service (Inr example_block) example_payload [Task 0, Task 1, Task 1]"
  let ?s' = "handleGetPayload example_service (Inr example_block) example_payload
          ([Task 0, Task 1, Task 1] @ finish 5 2 @ finish 5 2)"
  have n: "(1::nat) < length (svc_relays example_service)" by (simp add: example_service_def)
  have 1: "gp_pcs ?s ! 1 = PLocked \<and> \<not> gp_cancelled ?s"
    by (simp add: payload_eval example_service_def)
  have 2: "gp_pcs ?s' ! 1 = PDone"
    by (simp add: payload_eval example_service_def)
  have 3: "gp_reply ?s' = Some (RespondOK (gp_result ?s'))"
    by (simp add: payload_eval example_service_def payload_reply_def,
        simp add: example_payload_def example_hashB_not_nil)
  note r = getPayload_race[OF example_requestRef(1), where m = example_service and resp = example_payload
      and es = "[Task 0, Task 1, Task 1]" and es' = "finish 5 2 @ finish 5 2",
      THEN conjunct1, rule_format, OF n 1,
      THEN conjunct2, THEN conjunct2, THEN conjunct2, THEN mp, OF 2]
  show ?thesis using 1 r 3 by simp
qed

subsection \<open>handleRegisterValidator: invariant, progress and the claim\<close>

definition reported :: "(nat \<Rightarrow> string option) \<Rightarrow> register_pc list \<Rightarrow> (register_pc \<times> string option) list" where
  "reported send pcs = zip pcs (map send [0..<length pcs])"

definition ok_flag :: "register_state \<Rightarrow> nat" where
  "ok_flag s = (if rv_reply s = Some (RespondOK ()) then 1 else 0)"

definition register_inv :: "BoostService \<Rightarrow> (nat \<Rightarrow> string option) \<Rightarrow> register_state \<Rightarrow> bool" where
  "register_inv m send s \<longleftrightarrow>
     length (rv_pcs s) = length (svc_relays m)
   \<and> length (filter (\<lambda>p. p = RDone) (rv_pcs s)) = rv_i s + length (relayRespCh s) + ok_flag s
   \<and> length (filter (\<lambda>(p, e). p = RDone \<and> e = None) (reported send (rv_pcs s)))
        = length (filter (\<lambda>v. v = None) (relayRespCh s)) + ok_flag s
   \<and> rv_i s \<le> length (svc_relays m)
   \<and> (\<forall>r. rv_reply s = Some r \<longrightarrow>
          r = RespondOK () \<or> r = RespondError StatusBadGateway errNoSuccessfulRelayResponse
                            \<and> rv_i s = length (svc_relays m))"

lemma reported_update:
  "i < length pcs \<Longrightarrow> reported send (pcs[i := p]) = (reported send pcs)[i := (p, send i)]"
proof -
  assume i: "i < length pcs"
  have "(map send [0..<length pcs])[i := send i] = map send [0..<length pcs]"
    using i by (simp add: list_update_same_conv)
  then have "zip (pcs[i := p]) (map send [0..<length pcs])
      = zip (pcs[i := p]) ((map send [0..<length pcs])[i := send i])" by simp
  also have "\<dots> = (zip pcs (map send [0..<length pcs]))[i := (p, send i)]"
    by (rule zip_update)
  finally show ?thesis by (simp add: reported_def)
qed

lemma reported_nth:
  "i < length pcs \<Longrightarrow> reported send pcs ! i = (pcs ! i, send i)"
  by (simp add: reported_def)

lemma reported_length [simp]: "length (reported send pcs) = length pcs"
  by (simp add: reported_def)

lemma register_inv_task:
  assumes "register_inv m send s" "i < length (rv_pcs s)"
  shows "register_inv m send (register_task m send i s)"
proof (cases "rv_pcs s ! i")
  case RSend
  show ?thesis
    using assms RSend
      count_update[of i "rv_pcs s" "\<lambda>p. p = RDone" RPush]
      count_update[of i "reported send (rv_pcs s)" "\<lambda>(p, e). p = RDone \<and> e = None" "(RPush, send i)"]
    unfolding register_inv_def register_task_def
    by (simp add: reported_update reported_nth ok_flag_def)
next
  case RPush
  show ?thesis
  proof (cases "length (relayRespCh s) < length (svc_relays m)")
    case False
    then show ?thesis using assms RPush by (simp add: register_task_def)
  next
    case True
    show ?thesis
      using assms RPush True
        count_update[of i "rv_pcs s" "\<lambda>p. p = RDone" RDone]
        count_update[of i "reported send (rv_pcs s)" "\<lambda>(p, e). p = RDone \<and> e = None" "(RDone, send i)"]
      unfolding register_inv_def register_task_def
      by (auto simp: reported_update reported_nth ok_flag_def)
  qed
next
  case RDone
  then show ?thesis using assms by (simp add: register_task_def)
qed

lemma register_inv_handler:
  assumes "register_inv m send s"
  shows "register_inv m send (register_handler m s)"
  using assms unfolding register_inv_def register_handler_def
  by (auto simp: ok_flag_def split: list.splits)

lemma register_inv_step:
  "register_inv m send s \<Longrightarrow> register_inv m send (register_step m send e s)"
  by (cases e) (simp_all add: register_step_def register_inv_task register_inv_handler)

lemma register_inv_init: "register_inv m send (register_init (length (svc_relays m)))"
proof -
  have "filter (\<lambda>(p, e). p = RDone \<and> e = None) (reported send (replicate (length (svc_relays m)) RSend)) = []"
    by (auto simp: filter_empty_conv reported_def dest: set_zip_leftD)
  then show ?thesis
    by (simp add: register_inv_def register_init_def ok_flag_def)
qed

lemma register_inv_run:
  "register_inv m send s \<Longrightarrow> register_inv m send (run (register_step m send) es s)"
  by (rule run_invariant[where I = "register_inv m send"]) (simp_all add: register_inv_step)

lemma register_inv_reachable:
  "register_inv m send (handleRegisterValidator m (Inr payload) send es)"
  by (simp add: handleRegisterValidator_def register_inv_run register_inv_init)


lemma register_push_enabled:
  assumes "register_inv m send s" "i < length (rv_pcs s)" "rv_pcs s ! i \<noteq> RDone"
  shows "length (relayRespCh s) < length (svc_relays m)"
proof -
  have "rv_pcs s ! i \<in> set (rv_pcs s)" using assms(2) by simp
  then have "length (filter (\<lambda>p. p = RDone) (rv_pcs s)) < length (rv_pcs s)"
    using assms(3) by (intro length_filter_less) auto
  then show ?thesis using assms(1) by (simp add: register_inv_def)
qed

lemma register_ok_reported:
  assumes "register_inv m send s" "rv_reply s = Some (RespondOK ())"
  shows "\<exists>i<length (svc_relays m). send i = None \<and> rv_pcs s ! i = RDone"
proof -
  have "length (filter (\<lambda>(p, e). p = RDone \<and> e = None) (reported send (rv_pcs s))) \<noteq> 0"
    using assms by (simp add: register_inv_def ok_flag_def)
  then obtain x where "x \<in> set (reported send (rv_pcs s))" "case x of (p, e) \<Rightarrow> p = RDone \<and> e = None"
    by (auto simp: filter_empty_conv)
  then obtain i where "i < length (rv_pcs s)" "reported send (rv_pcs s) ! i = x"
    by (metis in_set_conv_nth reported_length)
  then show ?thesis
    using \<open>case x of (p, e) \<Rightarrow> p = RDone \<and> e = None\<close> assms(1)
    by (auto simp: reported_nth register_inv_def)
qed

lemma filter_all:
  "length (filter P xs) = length xs \<Longrightarrow> \<forall>x\<in>set xs. P x"
  using sum_length_filter_compl[of P xs] by (auto simp: filter_empty_conv)

lemma register_all_reported:
  assumes "register_inv m send s" "rv_i s = length (svc_relays m)"
  shows "\<forall>i<length (svc_relays m). send i \<noteq> None \<and> rv_pcs s ! i = RDone"
proof -
  have len: "length (rv_pcs s) = length (svc_relays m)" using assms(1) by (simp add: register_inv_def)
  have "length (filter (\<lambda>p. p = RDone) (rv_pcs s)) \<le> length (rv_pcs s)" by simp
  then have c: "length (filter (\<lambda>p. p = RDone) (rv_pcs s)) = length (rv_pcs s)"
    "relayRespCh s = []" "ok_flag s = 0"
    using assms len by (simp_all add: register_inv_def)
  have dn: "\<forall>i<length (svc_relays m). rv_pcs s ! i = RDone"
    using filter_all[OF c(1)] len by simp
  have "filter (\<lambda>(p, e). p = RDone \<and> e = None) (reported send (rv_pcs s)) = []"
    using assms(1) c by (simp add: register_inv_def)
  then have "\<forall>x\<in>set (reported send (rv_pcs s)). \<not> (case x of (p, e) \<Rightarrow> p = RDone \<and> e = None)"
    by (simp add: filter_empty_conv)
  then have "\<forall>i<length (rv_pcs s). \<not> (rv_pcs s ! i = RDone \<and> send i = None)"
    by (metis (mono_tags, lifting) case_prod_conv nth_mem reported_length reported_nth)
  then show ?thesis using dn len by auto
qed

text \<open>The goroutines advance whatever the handler does.\<close>

fun register_rank :: "register_pc \<Rightarrow> nat" where
  "register_rank RSend = 0"
| "register_rank RPush = 1"
| "register_rank RDone = 2"

lemma register_step_length [simp]:
  "length (rv_pcs (register_step m send e s)) = length (rv_pcs s)"
  by (cases e)
     (auto simp: register_step_def register_task_def register_handler_def split: register_pc.splits list.splits)

lemma register_step_rank:
  assumes "register_inv m send s" "i < length (rv_pcs s)"
  shows "min 2 (register_rank (rv_pcs s ! i) + (if e = Task i then 1 else 0))
           \<le> register_rank (rv_pcs (register_step m send e s) ! i)"
proof (cases e)
  case Handler
  then show ?thesis
    by (cases "rv_pcs s ! i")
       (auto simp: register_step_def register_handler_def split: list.splits)
next
  case (Task j)
  show ?thesis
  proof (cases "j = i")
    case True
    have "rv_pcs s ! i \<noteq> RDone \<Longrightarrow> length (relayRespCh s) < length (svc_relays m)"
      using register_push_enabled[OF assms] .
    then show ?thesis using Task True assms(2)
      by (cases "rv_pcs s ! i") (auto simp: register_step_def register_task_def)
  next
    case False
    then show ?thesis using Task
      by (cases "rv_pcs s ! j") (auto simp: register_step_def register_task_def)
  qed
qed

lemma register_run_rank:
  assumes "register_inv m send s" "i < length (rv_pcs s)"
  shows "min 2 (register_rank (rv_pcs s ! i) + count_list es (Task i))
           \<le> register_rank (rv_pcs (run (register_step m send) es s) ! i)"
  using assms
proof (induction es arbitrary: s)
  case Nil
  then show ?case by simp
next
  case (Cons e es)
  let ?s = "register_step m send e s"
  have "min 2 (register_rank (rv_pcs ?s ! i) + count_list es (Task i))
           \<le> register_rank (rv_pcs (run (register_step m send) es ?s) ! i)"
    using Cons.IH[of ?s] Cons.prems by (simp add: register_inv_step)
  moreover have "min 2 (register_rank (rv_pcs s ! i) + (if e = Task i then 1 else 0))
           \<le> register_rank (rv_pcs ?s ! i)"
    using register_step_rank[OF Cons.prems] .
  ultimately show ?case by (auto simp: min_def split: if_splits)
qed


definition register_sent_inv :: "BoostService \<Rightarrow> register_state \<Rightarrow> bool" where
  "register_sent_inv m s =
     (\<forall>i<length (rv_pcs s). rv_pcs s ! i \<noteq> RSend \<longrightarrow>
        (''POST'', GetURI (svc_relays m ! i) pathRegisterValidator) \<in> set (rv_sent s))"

lemma register_sent_step:
  "register_sent_inv m s \<Longrightarrow> register_sent_inv m (register_step m send e s)"
proof (cases e)
  case Handler
  assume "register_sent_inv m s"
  then show ?thesis using Handler
    by (auto simp: register_sent_inv_def register_step_def register_handler_def split: list.splits)
next
  case (Task j)
  assume "register_sent_inv m s"
  then show ?thesis using Task
    by (cases "rv_pcs s ! j")
       (auto simp: register_sent_inv_def register_step_def register_task_def nth_list_update)
qed

lemma register_sent_reachable:
  "register_sent_inv m (handleRegisterValidator m (Inr payload) send es)"
proof -
  have "register_sent_inv m (register_init (length (svc_relays m)))"
    by (simp add: register_sent_inv_def register_init_def)
  then have "register_sent_inv m (run (register_step m send) es (register_init (length (svc_relays m))))"
    by (intro run_invariant[where I = "register_sent_inv m"] register_sent_step)
  then show ?thesis by (simp add: handleRegisterValidator_def)
qed

lemma count_list_replicate: "count_list (replicate k x) y = (if x = y then k else 0)"
  by (induction k) auto

lemma count_list_rounds: "count_list (rounds k n) (Task i) = (if i < n then k else 0)"
  by (induction n) (auto simp: rounds_Suc count_list_replicate rounds_def)

lemma register_rounds_done:
  assumes "register_inv m send s"
  shows "\<forall>i<length (rv_pcs s). rv_pcs (run (register_step m send) (rounds 2 (length (rv_pcs s))) s) ! i = RDone"
proof (intro allI impI)
  fix i assume i: "i < length (rv_pcs s)"
  let ?p = "rv_pcs (run (register_step m send) (rounds 2 (length (rv_pcs s))) s) ! i"
  have "min 2 (register_rank (rv_pcs s ! i) + 2) \<le> register_rank ?p"
    using register_run_rank[OF assms i, of "rounds 2 (length (rv_pcs s))"] i
    by (simp add: count_list_rounds)
  then show "?p = RDone" by (cases ?p) simp_all
qed

lemma register_handler_pcs [simp]: "rv_pcs (register_handler m s) = rv_pcs s"
  by (auto simp: register_handler_def split: list.splits)

lemma register_step_Handler: "register_step m send Handler s = register_handler m s"
  by (simp add: register_step_def)

lemma register_replied_stable:
  "rv_reply s \<noteq> None \<Longrightarrow> rv_reply (run (register_step m send) (replicate k Handler) s) \<noteq> None"
  by (induction k arbitrary: s) (auto simp: register_step_Handler register_handler_def)

lemma register_drain:
  assumes "register_inv m send s" "\<forall>i<length (rv_pcs s). rv_pcs s ! i = RDone"
    and "d = length (svc_relays m) - rv_i s"
  shows "rv_reply (run (register_step m send) (replicate (Suc d) Handler) s) \<noteq> None"
  using assms
proof (induction d arbitrary: s)
  case 0
  then have "rv_i s = length (svc_relays m)" by (simp add: register_inv_def)
  then show ?case by (simp add: register_step_Handler register_handler_def)
next
  case (Suc d)
  let ?s = "register_handler m s"
  show ?case
  proof (cases "rv_reply s = None")
    case False
    then show ?thesis using register_replied_stable[of s m send "Suc (Suc d)"] by simp
  next
    case True
    have lt: "rv_i s < length (svc_relays m)" using Suc.prems(3) by simp
    have len: "length (rv_pcs s) = length (svc_relays m)" using Suc.prems(1) by (simp add: register_inv_def)
    have "filter (\<lambda>p. p = RDone) (rv_pcs s) = rv_pcs s"
      using Suc.prems(2) by (auto simp: filter_id_conv in_set_conv_nth)
    then have "length (filter (\<lambda>p. p = RDone) (rv_pcs s)) = length (svc_relays m)" using len by simp
    then have "length (relayRespCh s) = length (svc_relays m) - rv_i s"
      using Suc.prems(1) True by (simp add: register_inv_def ok_flag_def)
    then obtain v rest where ch: "relayRespCh s = v # rest" using lt by (cases "relayRespCh s") auto
    have inv': "register_inv m send ?s" using Suc.prems(1) by (rule register_inv_handler)
    show ?thesis
    proof (cases "v = None")
      case vn: True
      then have "rv_reply ?s \<noteq> None" using True lt ch by (simp add: register_handler_def)
      then show ?thesis using register_replied_stable[of ?s m send "Suc d"]
        by (simp add: register_step_Handler)
    next
      case False
      then have "rv_i ?s = rv_i s + 1" using True lt ch by (auto simp: register_handler_def)
      then have "d = length (svc_relays m) - rv_i ?s" using Suc.prems(3) by simp
      then have "rv_reply (run (register_step m send) (replicate (Suc d) Handler) ?s) \<noteq> None"
        using Suc.IH[of ?s] inv' Suc.prems(2) by simp
      then show ?thesis by (simp add: register_step_Handler)
    qed
  qed
qed

lemma register_replies:
  assumes "register_inv m send s"
  shows "rv_reply (run (register_step m send)
           (rounds 2 (length (svc_relays m)) @ replicate (Suc (length (svc_relays m))) Handler) s) \<noteq> None"
proof -
  let ?n = "length (svc_relays m)"
  let ?s1 = "run (register_step m send) (rounds 2 ?n) s"
  have len: "length (rv_pcs s) = ?n" using assms by (simp add: register_inv_def)
  have inv1: "register_inv m send ?s1" using assms by (rule register_inv_run)
  have len1: "length (rv_pcs ?s1) = ?n" using inv1 by (simp add: register_inv_def)
  have dn: "\<forall>i<length (rv_pcs ?s1). rv_pcs ?s1 ! i = RDone"
    using register_rounds_done[OF assms] len len1 by simp
  let ?d = "?n - rv_i ?s1"
  have "rv_reply (run (register_step m send) (replicate (Suc ?d) Handler) ?s1) \<noteq> None"
    using register_drain[OF inv1 dn] by simp
  then have "rv_reply (run (register_step m send) (replicate (rv_i ?s1) Handler)
              (run (register_step m send) (replicate (Suc ?d) Handler) ?s1)) \<noteq> None"
    by (rule register_replied_stable)
  moreover have "replicate (Suc ?n) Handler = replicate (Suc ?d) Handler @ replicate (rv_i ?s1) Handler"
    using inv1 by (simp add: register_inv_def flip: replicate_add)
  ultimately show ?thesis by (simp add: run_append)
qed


lemma handleRegisterValidator_append:
  "handleRegisterValidator m (Inr payload) send (es @ es')
     = run (register_step m send) es' (handleRegisterValidator m (Inr payload) send es)"
  by (simp add: handleRegisterValidator_def run_append)

text \<open>C8: at every point of every interleaving: a relay goroutine that has its request's error
  (or \<^verbatim>\<open>nil\<close>) pushes it on the channel at its next step, the channel (of capacity the number
  of relays) never being full for it; the handler replies 200 on receiving a \<^verbatim>\<open>nil\<close>, whatever
  the other goroutines are doing; it has replied 200 only if some relay reported \<^verbatim>\<open>nil\<close>; any
  other reply is 502 \<^verbatim>\<open>no successful relay response\<close>, and then every relay has reported an
  error; the reply stops no goroutine: a goroutine that was scheduled twice has sent its
  request and reported, whatever the handler did meanwhile; and after every interleaving,
  the goroutines and the handler left to run give a reply.\<close>

theorem registerValidator_replies:
  "(\<forall>i<length (svc_relays m).
       rv_pcs (handleRegisterValidator m (Inr payload) send es) ! i = RPush \<longrightarrow>
         rv_pcs (register_step m send (Task i) (handleRegisterValidator m (Inr payload) send es)) ! i = RDone
       \<and> relayRespCh (register_step m send (Task i) (handleRegisterValidator m (Inr payload) send es))
           = relayRespCh (handleRegisterValidator m (Inr payload) send es) @ [send i])
   \<and> length (relayRespCh (handleRegisterValidator m (Inr payload) send es)) \<le> length (svc_relays m)
   \<and> (rv_reply (handleRegisterValidator m (Inr payload) send es) = None
        \<and> rv_i (handleRegisterValidator m (Inr payload) send es) < length (svc_relays m)
        \<and> (\<exists>rest. relayRespCh (handleRegisterValidator m (Inr payload) send es) = None # rest) \<longrightarrow>
          rv_reply (register_step m send Handler (handleRegisterValidator m (Inr payload) send es))
            = Some (RespondOK ()))
   \<and> (rv_reply (handleRegisterValidator m (Inr payload) send es) = Some (RespondOK ()) \<longrightarrow>
          (\<exists>i<length (svc_relays m). send i = None
              \<and> rv_pcs (handleRegisterValidator m (Inr payload) send es) ! i = RDone))
   \<and> (\<forall>r. rv_reply (handleRegisterValidator m (Inr payload) send es) = Some r \<and> r \<noteq> RespondOK () \<longrightarrow>
          r = RespondError 502 errNoSuccessfulRelayResponse
        \<and> (\<forall>i<length (svc_relays m). send i \<noteq> None
              \<and> rv_pcs (handleRegisterValidator m (Inr payload) send es) ! i = RDone))
   \<and> (\<forall>i<length (svc_relays m). 2 \<le> count_list es (Task i) \<longrightarrow>
          rv_pcs (handleRegisterValidator m (Inr payload) send es) ! i = RDone
        \<and> (''POST'', GetURI (svc_relays m ! i) pathRegisterValidator)
            \<in> set (rv_sent (handleRegisterValidator m (Inr payload) send es)))
   \<and> rv_reply (handleRegisterValidator m (Inr payload) send
         (es @ rounds 2 (length (svc_relays m)) @ replicate (Suc (length (svc_relays m))) Handler)) \<noteq> None"
proof (intro conjI allI impI)
  let ?s = "handleRegisterValidator m (Inr payload) send es"
  let ?n = "length (svc_relays m)"
  have inv: "register_inv m send ?s" by (rule register_inv_reachable)
  have len: "length (rv_pcs ?s) = ?n" using inv by (simp add: register_inv_def)
  have sent: "register_sent_inv m ?s" by (rule register_sent_reachable)
  have done_le: "length (filter (\<lambda>p. p = RDone) (rv_pcs ?s)) \<le> ?n"
    using length_filter_le[of "\<lambda>p. p = RDone" "rv_pcs ?s"] len by simp
  show "length (relayRespCh ?s) \<le> ?n"
    using inv done_le by (simp add: register_inv_def)
  show "rv_reply (handleRegisterValidator m (Inr payload) send
         (es @ rounds 2 ?n @ replicate (Suc ?n) Handler)) \<noteq> None"
    using register_replies[OF inv] by (simp add: handleRegisterValidator_append)
  {
    fix i assume i: "i < ?n" and p: "rv_pcs ?s ! i = RPush"
    have "length (relayRespCh ?s) < ?n" using register_push_enabled[OF inv, of i] i p len by simp
    then show "rv_pcs (register_step m send (Task i) ?s) ! i = RDone"
      "relayRespCh (register_step m send (Task i) ?s) = relayRespCh ?s @ [send i]"
      using i p len by (simp_all add: register_step_def register_task_def)
  }
  {
    assume "rv_reply ?s = None \<and> rv_i ?s < ?n \<and> (\<exists>rest. relayRespCh ?s = None # rest)"
    then show "rv_reply (register_step m send Handler ?s) = Some (RespondOK ())"
      by (auto simp: register_step_Handler register_handler_def)
  }
  {
    assume "rv_reply ?s = Some (RespondOK ())"
    then show "\<exists>i<?n. send i = None \<and> rv_pcs ?s ! i = RDone" using register_ok_reported[OF inv] by simp
  }
  {
    fix r assume r: "rv_reply ?s = Some r \<and> r \<noteq> RespondOK ()"
    then have A: "r = RespondError StatusBadGateway errNoSuccessfulRelayResponse" "rv_i ?s = ?n"
      using inv unfolding register_inv_def by blast+
    then show "r = RespondError 502 errNoSuccessfulRelayResponse"
      by (simp add: StatusBadGateway_def)
    fix i assume "i < ?n"
    then show "send i \<noteq> None" "rv_pcs ?s ! i = RDone"
      using register_all_reported[OF inv A(2)] by simp_all
  }
  {
    fix i assume i: "i < ?n" and c: "2 \<le> count_list es (Task i)"
    have inv0: "register_inv m send (register_init ?n)" by (rule register_inv_init)
    have "min 2 (register_rank (rv_pcs (register_init ?n) ! i) + count_list es (Task i))
           \<le> register_rank (rv_pcs (run (register_step m send) es (register_init ?n)) ! i)"
      using register_run_rank[OF inv0, of i es] i by (simp add: register_init_def)
    then have "2 \<le> register_rank (rv_pcs ?s ! i)"
      using c by (simp add: handleRegisterValidator_def min_def split: if_splits)
    then show d: "rv_pcs ?s ! i = RDone" by (cases "rv_pcs ?s ! i") simp_all
    then show "(''POST'', GetURI (svc_relays m ! i) pathRegisterValidator) \<in> set (rv_sent ?s)"
      using sent i len unfolding register_sent_inv_def by simp
  }
qed

lemmas register_eval = handleRegisterValidator_def register_init_def register_step_def register_task_def
  register_handler_def Let_def

theorem registerValidator_replies_witness:
  "rv_reply (handleRegisterValidator example_service (Inr ()) example_send [Task 0, Task 0, Handler])
     = Some (RespondOK ())
   \<and> rv_pcs (handleRegisterValidator example_service (Inr ()) example_send [Task 0, Task 0, Handler]) ! 1
       = RSend
   \<and> rv_pcs (handleRegisterValidator example_service (Inr ()) example_send
         [Task 0, Task 0, Handler, Task 1, Task 1]) ! 1 = RDone
   \<and> (''POST'', GetURI (svc_relays example_service ! 1) pathRegisterValidator)
        \<in> set (rv_sent (handleRegisterValidator example_service (Inr ()) example_send
                  [Task 0, Task 0, Handler, Task 1, Task 1]))"
proof -
  have n: "(1::nat) < length (svc_relays example_service)" by (simp add: example_service_def)
  have c: "2 \<le> count_list [Task 0, Task 0, Handler, Task 1, Task 1] (Task 1)" by simp
  have a: "rv_reply (handleRegisterValidator example_service (Inr ()) example_send [Task 0, Task 0, Handler])
     = Some (RespondOK ())"
    "rv_pcs (handleRegisterValidator example_service (Inr ()) example_send [Task 0, Task 0, Handler]) ! 1
       = RSend"
    by (simp_all add: register_eval example_service_def example_send_def)
  note t = registerValidator_replies[of example_service "()" example_send
      "[Task 0, Task 0, Handler, Task 1, Task 1]",
      THEN conjunct2, THEN conjunct2, THEN conjunct2, THEN conjunct2, THEN conjunct2, THEN conjunct1,
      rule_format, OF n c]
  show ?thesis using a t by blast
qed

subsection \<open>The bid cache: the lock, the sweep and the sleep\<close>

text \<open>The sweeper is inside its critical section from the \<^verbatim>\<open>range\<close> loop to \<^verbatim>\<open>Unlock\<close>, a
  client from its access to \<^verbatim>\<open>Unlock\<close>. The invariant: one entry per key, and the lock is
  held by the one goroutine that is inside its critical section.\<close>

definition sweeping :: "sweeper_pc \<Rightarrow> bool" where
  "sweeping p = (case p of SRange ks \<Rightarrow> True | SUnlock \<Rightarrow> True | _ \<Rightarrow> False)"

definition client_in :: "cache_client \<Rightarrow> bool" where
  "client_in c = (cl_pc c = CBody \<or> cl_pc c = CUnlock)"

definition cache_inv :: "cache_state \<Rightarrow> bool" where
  "cache_inv s \<longleftrightarrow>
     distinct (map fst (cs_bids s))
   \<and> (bidsLock s = Some OwnSweeper \<longleftrightarrow> sweeping (cs_sweeper s))
   \<and> (\<forall>i<length (cs_clients s). bidsLock s = Some (OwnClient i) \<longleftrightarrow> client_in (cs_clients s ! i))
   \<and> (\<forall>i. bidsLock s = Some (OwnClient i) \<longrightarrow> i < length (cs_clients s))"

lemma distinct_bids_store: "distinct (map fst b) \<Longrightarrow> distinct (map fst (bids_store k v b))"
  by (simp add: bids_store_def distinct_update)

lemma distinct_bids_delete: "distinct (map fst b) \<Longrightarrow> distinct (map fst (bids_delete k b))"
  by (simp add: bids_delete_def distinct_delete)

lemma cache_inv_sweeper:
  assumes "cache_inv s"
  shows "cache_inv (sweeper_step s)"
proof (cases "cs_sweeper s")
  case SStart
  then show ?thesis using assms by (auto simp: cache_inv_def sweeper_step_def sweeping_def)
next
  case (SSleep u)
  then show ?thesis using assms by (auto simp: cache_inv_def sweeper_step_def sweeping_def)
next
  case SLock
  then show ?thesis using assms by (auto simp: cache_inv_def sweeper_step_def sweeping_def)
next
  case (SRange ks)
  then show ?thesis using assms
    by (cases ks)
       (auto simp: cache_inv_def sweeper_step_def sweeping_def distinct_bids_delete split: option.splits)
next
  case SUnlock
  then show ?thesis using assms by (auto simp: cache_inv_def sweeper_step_def sweeping_def)
qed

lemma cache_inv_client:
  assumes "cache_inv s" "i < length (cs_clients s)"
  shows "cache_inv (client_step i s)"
proof (cases "cl_pc (cs_clients s ! i)")
  case CLock
  then show ?thesis using assms
    by (auto simp: cache_inv_def client_step_def Let_def client_in_def nth_list_update)
next
  case CBody
  then have h: "bidsLock s = Some (OwnClient i)" using assms by (auto simp: cache_inv_def client_in_def)
  show ?thesis using assms CBody h
    by (cases "cl_op (cs_clients s ! i)")
       (auto simp: cache_inv_def client_step_def Let_def client_in_def nth_list_update distinct_bids_store)
next
  case CUnlock
  then have h: "bidsLock s = Some (OwnClient i)" using assms by (auto simp: cache_inv_def client_in_def)
  show ?thesis using assms CUnlock h
    by (auto simp: cache_inv_def client_step_def Let_def client_in_def nth_list_update)
next
  case CDone
  then show ?thesis using assms by (simp add: client_step_def Let_def)
qed

lemma cache_inv_step: "cache_inv s \<Longrightarrow> cache_inv (cache_step e s)"
  by (cases e) (auto simp: cache_step_def cache_inv_sweeper cache_inv_client, simp add: cache_inv_def)

lemma cache_inv_init: "distinct (map fst b) \<Longrightarrow> cache_inv (cache_init t0 b ops)"
  by (simp add: cache_inv_def cache_init_def sweeping_def client_in_def)

lemma cache_inv_reachable: "distinct (map fst b) \<Longrightarrow> cache_inv (cache_run t0 b ops es)"
  unfolding cache_run_def
  by (intro run_invariant[where I = cache_inv] cache_inv_step cache_inv_init)


lemma cache_step_clients_length [simp]:
  "length (cs_clients (cache_step e s)) = length (cs_clients s)"
proof (cases e)
  case (Tick d)
  then show ?thesis by (simp add: cache_step_def)
next
  case SweeperStep
  then show ?thesis
    by (auto simp: cache_step_def sweeper_step_def split: sweeper_pc.splits list.splits option.splits)
next
  case (ClientStep i)
  then show ?thesis
    by (auto simp: cache_step_def client_step_def Let_def split: client_pc.splits cache_op.splits)
qed

lemma cache_run_clients_length [simp]:
  "length (cs_clients (cache_run t0 b ops es)) = length ops"
proof -
  have "length (cs_clients (run cache_step es s)) = length (cs_clients s)" for s
    by (induction es arbitrary: s) simp_all
  then show ?thesis by (simp add: cache_run_def cache_init_def)
qed

lemma cache_run_append:
  "cache_run t0 b ops (es @ es') = run cache_step es' (cache_run t0 b ops es)"
  by (simp add: cache_run_def run_append)

text \<open>Only the holder of the lock reads or writes the map.\<close>

lemma cache_access_by_holder:
  assumes "cache_inv s"
    and "cs_bids (cache_step e s) \<noteq> cs_bids s
         \<or> (\<exists>i<length (cs_clients s). cl_loaded (cs_clients (cache_step e s) ! i) \<noteq> cl_loaded (cs_clients s ! i))"
  shows "e = SweeperStep \<and> bidsLock s = Some OwnSweeper
       \<or> (\<exists>i<length (cs_clients s). e = ClientStep i \<and> bidsLock s = Some (OwnClient i))"
proof (cases e)
  case (Tick d)
  then show ?thesis using assms(2) by (simp add: cache_step_def)
next
  case SweeperStep
  have "bidsLock s = Some OwnSweeper"
  proof (rule ccontr)
    assume "bidsLock s \<noteq> Some OwnSweeper"
    then have "\<not> sweeping (cs_sweeper s)" using assms(1) by (simp add: cache_inv_def)
    then have "cs_bids (sweeper_step s) = cs_bids s" "cs_clients (sweeper_step s) = cs_clients s"
      by (auto simp: sweeper_step_def sweeping_def split: sweeper_pc.splits)
    then show False using assms(2) SweeperStep by (simp add: cache_step_def)
  qed
  then show ?thesis using SweeperStep by simp
next
  case (ClientStep j)
  show ?thesis
  proof (cases "j < length (cs_clients s)")
    case False
    then show ?thesis using assms(2) ClientStep by (simp add: cache_step_def)
  next
    case True
    have "bidsLock s = Some (OwnClient j)"
    proof (rule ccontr)
      assume "bidsLock s \<noteq> Some (OwnClient j)"
      then have "\<not> client_in (cs_clients s ! j)" using assms(1) True by (simp add: cache_inv_def)
      then have "cl_pc (cs_clients s ! j) = CLock \<or> cl_pc (cs_clients s ! j) = CDone"
        by (cases "cl_pc (cs_clients s ! j)") (simp_all add: client_in_def)
      then have "cs_bids (client_step j s) = cs_bids s"
        "\<forall>i<length (cs_clients s). cl_loaded (cs_clients (client_step j s) ! i) = cl_loaded (cs_clients s ! i)"
        using True by (auto simp: client_step_def Let_def nth_list_update)
      then show False using assms(2) ClientStep True by (auto simp: cache_step_def)
    qed
    then show ?thesis using ClientStep True by simp
  qed
qed

text \<open>What the visit of one key does.\<close>

lemma map_of_bids_delete: "map_of (bids_delete k b) = (map_of b)(k := None)"
  by (simp add: bids_delete_def delete_conv')

lemma sweeper_visit:
  assumes "cs_sweeper s = SRange (k # ks)"
  shows "map_of (cs_bids (cache_step SweeperStep s))
           = (\<lambda>k'. if k' = k \<and> (\<exists>r. map_of (cs_bids s) k = Some r \<and> cs_now s - bid_t r > 3 * Minute)
                    then None else map_of (cs_bids s) k')"
    and "cs_sweeper (cache_step SweeperStep s) = SRange ks"
  using assms
  by (auto simp: cache_step_def sweeper_step_def map_of_bids_delete fun_eq_iff split: option.splits)


text \<open>Entries older than three minutes at time \<open>T\<close> do not survive a sweep that starts
  after \<open>T\<close>.\<close>

definition swept :: "Time \<Rightarrow> cache_state \<Rightarrow> bool" where
  "swept T s \<longleftrightarrow>
     T \<le> cs_now s
   \<and> (case cs_sweeper s of
        SRange ks \<Rightarrow> (\<forall>(k, r)\<in>set (cs_bids s). k \<notin> set ks \<longrightarrow> T - bid_t r \<le> 3 * Minute)
      | SUnlock \<Rightarrow> (\<forall>(k, r)\<in>set (cs_bids s). T - bid_t r \<le> 3 * Minute)
      | _ \<Rightarrow> True)"

lemma set_bids_delete: "set (bids_delete k b) = {e \<in> set b. fst e \<noteq> k}"
  by (auto simp: bids_delete_def AList.delete_eq)

lemma swept_sweeper:
  assumes "cache_inv s" "swept T s"
  shows "swept T (sweeper_step s)"
proof (cases "cs_sweeper s")
  case SStart
  then show ?thesis using assms(2) by (simp add: swept_def sweeper_step_def)
next
  case (SSleep u)
  then show ?thesis using assms(2) by (simp add: swept_def sweeper_step_def)
next
  case SLock
  then show ?thesis using assms(2) by (force simp: swept_def sweeper_step_def)
next
  case SUnlock
  then show ?thesis using assms(2) by (simp add: swept_def sweeper_step_def)
next
  case (SRange ks)
  have d: "distinct (map fst (cs_bids s))" using assms(1) by (simp add: cache_inv_def)
  show ?thesis
  proof (cases ks)
    case Nil
    then show ?thesis using assms(2) SRange by (simp add: swept_def sweeper_step_def)
  next
    case (Cons k ks')
    show ?thesis
    proof (cases "map_of (cs_bids s) k")
      case None
      then have "\<forall>(k', r)\<in>set (cs_bids s). k' \<noteq> k"
        by (auto simp: map_of_eq_None_iff image_iff)
      then show ?thesis using assms(2) SRange Cons None
        by (auto simp: swept_def sweeper_step_def)
    next
      case (Some r)
      then have only: "\<And>r'. (k, r') \<in> set (cs_bids s) \<Longrightarrow> r' = r"
        using d by simp
      show ?thesis
      proof (cases "cs_now s - bid_t r > 3 * Minute")
        case True
        then show ?thesis using assms(2) SRange Cons Some
          by (auto simp: swept_def sweeper_step_def set_bids_delete)
      next
        case False
        then have "T - bid_t r \<le> 3 * Minute" using assms(2) by (simp add: swept_def)
        then show ?thesis using assms(2) SRange Cons Some False only
          by (auto simp: swept_def sweeper_step_def)
      qed
    qed
  qed
qed

lemma swept_client:
  assumes "cache_inv s" "swept T s" "i < length (cs_clients s)"
  shows "swept T (client_step i s)"
proof (cases "sweeping (cs_sweeper s)")
  case True
  then have "bidsLock s = Some OwnSweeper" using assms(1) by (simp add: cache_inv_def)
  then have "\<not> client_in (cs_clients s ! i)" "bidsLock s \<noteq> None"
    using assms(1,3) by (auto simp: cache_inv_def)
  then have "cs_bids (client_step i s) = cs_bids s \<and> cs_sweeper (client_step i s) = cs_sweeper s
      \<and> cs_now (client_step i s) = cs_now s"
    by (cases "cl_pc (cs_clients s ! i)") (auto simp: client_step_def Let_def client_in_def)
  then show ?thesis using assms(2) by (simp add: swept_def split: sweeper_pc.splits)
next
  case False
  have "cs_sweeper (client_step i s) = cs_sweeper s \<and> cs_now (client_step i s) = cs_now s"
    by (auto simp: client_step_def Let_def split: client_pc.splits cache_op.splits)
  then show ?thesis using assms(2) False
    by (auto simp: swept_def sweeping_def split: sweeper_pc.splits)
qed

lemma swept_tick: "swept T s \<Longrightarrow> swept T (s\<lparr>cs_now := cs_now s + int d\<rparr>)"
  by (simp add: swept_def split: sweeper_pc.splits)

lemma swept_step: "cache_inv s \<Longrightarrow> swept T s \<Longrightarrow> swept T (cache_step e s)"
  by (cases e) (simp_all add: cache_step_def swept_sweeper swept_client swept_tick)

lemma swept_run:
  assumes "cache_inv s" "swept T s"
  shows "swept T (run cache_step es s)"
proof -
  have "cache_inv (run cache_step es s) \<and> swept T (run cache_step es s)"
    by (rule run_invariant[where I = "\<lambda>s. cache_inv s \<and> swept T s"])
       (simp_all add: assms cache_inv_step swept_step)
  then show ?thesis by simp
qed

text \<open>A sweep does not start before the sweeper has slept a minute.\<close>

definition slept :: "Time \<Rightarrow> cache_state \<Rightarrow> bool" where
  "slept T s \<longleftrightarrow>
     T \<le> cs_now s
   \<and> (cs_sweeper s = SStart \<or> (\<exists>u. cs_sweeper s = SSleep u \<and> T + Minute \<le> u) \<or> T + Minute \<le> cs_now s)"

lemma slept_step: "slept T s \<Longrightarrow> slept T (cache_step e s)"
proof (cases e)
  case (Tick d)
  assume "slept T s"
  then show ?thesis using Tick by (auto simp: slept_def cache_step_def)
next
  case SweeperStep
  assume "slept T s"
  then show ?thesis using SweeperStep
    by (cases "cs_sweeper s")
       (auto simp: slept_def cache_step_def sweeper_step_def split: list.splits option.splits)
next
  case (ClientStep i)
  have "cs_sweeper (client_step i s) = cs_sweeper s \<and> cs_now (client_step i s) = cs_now s"
    by (auto simp: client_step_def Let_def split: client_pc.splits cache_op.splits)
  moreover assume "slept T s"
  ultimately show ?thesis using ClientStep by (auto simp: slept_def cache_step_def)
qed

lemma slept_run: "slept T s \<Longrightarrow> slept T (run cache_step es s)"
  by (rule run_invariant[where I = "slept T"]) (simp_all add: slept_step)


text \<open>The clock does not go back.\<close>

lemma cs_now_step: "cs_now s \<le> cs_now (cache_step e s)"
proof (cases e)
  case (Tick d)
  then show ?thesis by (simp add: cache_step_def)
next
  case SweeperStep
  then show ?thesis
    by (auto simp: cache_step_def sweeper_step_def split: sweeper_pc.splits list.splits option.splits)
next
  case (ClientStep i)
  then show ?thesis
    by (auto simp: cache_step_def client_step_def Let_def split: client_pc.splits cache_op.splits)
qed

lemma cs_now_run: "cs_now s \<le> cs_now (run cache_step es s)"
proof (induction es arbitrary: s)
  case Nil
  then show ?case by simp
next
  case (Cons e es)
  have "cs_now s \<le> cs_now (cache_step e s)" by (rule cs_now_step)
  also have "\<dots> \<le> cs_now (run cache_step es (cache_step e s))" by (rule Cons.IH)
  finally show ?case by simp
qed

text \<open>An entry that is not older than three minutes stays while the sweep goes on.\<close>

lemma kept_step:
  assumes inv: "cache_inv s" and sw: "sweeping (cs_sweeper s)"
    and e: "(k, r) \<in> set (cs_bids s)" and age: "cs_now s - bid_t r \<le> 3 * Minute"
  shows "(k, r) \<in> set (cs_bids (cache_step ev s))"
proof (cases ev)
  case (Tick d)
  then show ?thesis using e by (simp add: cache_step_def)
next
  case (ClientStep i)
  have "bidsLock s = Some OwnSweeper" using inv sw by (simp add: cache_inv_def)
  then have "cs_bids (cache_step ev s) = cs_bids s"
    using cache_access_by_holder[OF inv, of ev] ClientStep by auto
  then show ?thesis using e by simp
next
  case SweeperStep
  have d: "distinct (map fst (cs_bids s))" using inv by (simp add: cache_inv_def)
  have m: "map_of (cs_bids s) k = Some r" using d e by simp
  show ?thesis
  proof (cases "cs_sweeper s")
    case (SRange ks)
    show ?thesis
    proof (cases ks)
      case Nil
      then show ?thesis using SweeperStep SRange e by (simp add: cache_step_def sweeper_step_def)
    next
      case (Cons k' ks')
      show ?thesis
      proof (cases "k' = k")
        case True
        then show ?thesis using SweeperStep SRange Cons e m age
          by (simp add: cache_step_def sweeper_step_def)
      next
        case False
        then show ?thesis using SweeperStep SRange Cons e
          by (auto simp: cache_step_def sweeper_step_def set_bids_delete split: option.splits)
      qed
    qed
  qed (insert sw SweeperStep e, simp_all add: sweeping_def cache_step_def sweeper_step_def)
qed

lemma kept_run:
  assumes "cache_inv s"
    and "\<forall>n<length es. sweeping (cs_sweeper (run cache_step (take n es) s))"
    and "(k, r) \<in> set (cs_bids s)"
    and "cs_now (run cache_step es s) - bid_t r \<le> 3 * Minute"
  shows "(k, r) \<in> set (cs_bids (run cache_step es s))"
  using assms
proof (induction es arbitrary: s)
  case Nil
  then show ?case by simp
next
  case (Cons e es)
  let ?s1 = "cache_step e s"
  have sw: "sweeping (cs_sweeper s)" using Cons.prems(2) by force
  have "cs_now s \<le> cs_now (run cache_step (e # es) s)" by (rule cs_now_run)
  then have age: "cs_now s - bid_t r \<le> 3 * Minute" using Cons.prems(4) by simp
  have 1: "cache_inv ?s1" using Cons.prems(1) by (rule cache_inv_step)
  have 2: "\<forall>n<length es. sweeping (cs_sweeper (run cache_step (take n es) ?s1))"
  proof (intro allI impI)
    fix n assume "n < length es"
    then have "Suc n < length (e # es)" by simp
    then have "sweeping (cs_sweeper (run cache_step (take (Suc n) (e # es)) s))"
      using Cons.prems(2) by blast
    then show "sweeping (cs_sweeper (run cache_step (take n es) ?s1))" by simp
  qed
  have 3: "(k, r) \<in> set (cs_bids ?s1)" using kept_step[OF Cons.prems(1) sw Cons.prems(3) age] .
  have 4: "cs_now (run cache_step es ?s1) - bid_t r \<le> 3 * Minute" using Cons.prems(4) by simp
  show ?case using Cons.IH[OF 1 2 3 4] by simp
qed

text \<open>A sweep that nothing interleaves with: the lock, one visit per key, and the map is
  left with the entries that are not older than three minutes, in their order.\<close>

lemma filter_fst_cong:
  assumes "\<And>k r. (k, r) \<in> set b \<Longrightarrow> P k r = Q k r"
  shows "filter (\<lambda>(k, r). P k r) b = filter (\<lambda>(k, r). Q k r) b"
  using assms by (intro filter_cong) auto

lemma sweep_range:
  assumes "distinct (map fst (cs_bids s))" and "cs_sweeper s = SRange ks"
  shows "run cache_step (replicate (length ks) SweeperStep) s
           = s\<lparr>cs_bids := filter (\<lambda>(k, r). k \<in> set ks \<longrightarrow> cs_now s - bid_t r \<le> 3 * Minute) (cs_bids s),
               cs_sweeper := SRange []\<rparr>"
  using assms
proof (induction ks arbitrary: s)
  case Nil
  have "s\<lparr>cs_bids := cs_bids s, cs_sweeper := cs_sweeper s\<rparr> = s" by simp
  then show ?case using Nil by simp
next
  case (Cons k ks)
  let ?s1 = "cache_step SweeperStep s"
  let ?old = "\<lambda>r. cs_now s - bid_t r > 3 * Minute"
  have d: "distinct (map fst (cs_bids s))" by (rule Cons.prems(1))
  have s1: "?s1 = s\<lparr>cs_bids := filter (\<lambda>(k', r). k' = k \<longrightarrow> \<not> ?old r) (cs_bids s), cs_sweeper := SRange ks\<rparr>"
  proof (cases "map_of (cs_bids s) k")
    case None
    then have "\<And>k' r. (k', r) \<in> set (cs_bids s) \<Longrightarrow> k' \<noteq> k"
      by (auto simp: map_of_eq_None_iff image_iff)
    then have "filter (\<lambda>(k', r). k' = k \<longrightarrow> \<not> ?old r) (cs_bids s) = filter (\<lambda>(k', r). True) (cs_bids s)"
      by (intro filter_fst_cong) auto
    then show ?thesis using None Cons.prems(2) by (simp add: cache_step_def sweeper_step_def)
  next
    case (Some r)
    then have only: "\<And>r'. (k, r') \<in> set (cs_bids s) \<Longrightarrow> r' = r" using d by simp
    show ?thesis
    proof (cases "?old r")
      case True
      have "filter (\<lambda>(k', r). k' = k \<longrightarrow> \<not> ?old r) (cs_bids s) = filter (\<lambda>(k', r). k \<noteq> k') (cs_bids s)"
        using only True by (intro filter_fst_cong) auto
      then show ?thesis using Some True Cons.prems(2)
        by (simp add: cache_step_def sweeper_step_def bids_delete_def AList.delete_eq)
    next
      case False
      have "filter (\<lambda>(k', r). k' = k \<longrightarrow> \<not> ?old r) (cs_bids s) = filter (\<lambda>(k', r). True) (cs_bids s)"
        using only False by (intro filter_fst_cong) auto
      then show ?thesis using Some False Cons.prems(2)
        by (simp add: cache_step_def sweeper_step_def)
    qed
  qed
  have d1: "distinct (map fst (cs_bids ?s1))" unfolding s1 using d by (simp add: distinct_map_filter)
  have p1: "cs_sweeper ?s1 = SRange ks" unfolding s1 by simp
  have n1: "cs_now ?s1 = cs_now s" unfolding s1 by simp
  have "run cache_step (replicate (length (k # ks)) SweeperStep) s
          = run cache_step (replicate (length ks) SweeperStep) ?s1" by simp
  also have "\<dots> = ?s1\<lparr>cs_bids := filter (\<lambda>(k, r). k \<in> set ks \<longrightarrow> cs_now ?s1 - bid_t r \<le> 3 * Minute) (cs_bids ?s1),
               cs_sweeper := SRange []\<rparr>"
    by (rule Cons.IH[OF d1 p1])
  also have "\<dots> = s\<lparr>cs_bids := filter (\<lambda>(k', r). k' \<in> set (k # ks) \<longrightarrow> cs_now s - bid_t r \<le> 3 * Minute) (cs_bids s),
               cs_sweeper := SRange []\<rparr>"
  proof -
    have "filter (\<lambda>(k', r). k' \<in> set ks \<longrightarrow> cs_now s - bid_t r \<le> 3 * Minute)
            (filter (\<lambda>(k', r). k' = k \<longrightarrow> \<not> ?old r) (cs_bids s))
        = filter (\<lambda>(k', r). k' \<in> set (k # ks) \<longrightarrow> cs_now s - bid_t r \<le> 3 * Minute) (cs_bids s)"
      unfolding filter_filter by (intro filter_cong) auto
    then show ?thesis unfolding n1 unfolding s1 by simp
  qed
  finally show ?case .
qed

lemma sweep_undisturbed:
  assumes d: "distinct (map fst (cs_bids s))" and p: "cs_sweeper s = SLock" and l: "bidsLock s = None"
  shows "run cache_step (replicate (length (cs_bids s) + 2) SweeperStep) s
           = s\<lparr>bidsLock := Some OwnSweeper,
               cs_bids := filter (\<lambda>(k, r). cs_now s - bid_t r \<le> 3 * Minute) (cs_bids s),
               cs_sweeper := SUnlock\<rparr>"
proof -
  let ?n = "length (cs_bids s)"
  let ?s1 = "s\<lparr>bidsLock := Some OwnSweeper, cs_sweeper := SRange (map fst (cs_bids s))\<rparr>"
  let ?keep = "filter (\<lambda>(k, r). k \<in> set (map fst (cs_bids s)) \<longrightarrow> cs_now s - bid_t r \<le> 3 * Minute) (cs_bids s)"
  have 1: "cache_step SweeperStep s = ?s1" using p l by (simp add: cache_step_def sweeper_step_def)
  have "distinct (map fst (cs_bids ?s1))" "cs_sweeper ?s1 = SRange (map fst (cs_bids s))"
    using d by simp_all
  from sweep_range[OF this]
  have 2: "run cache_step (replicate ?n SweeperStep) ?s1
          = s\<lparr>bidsLock := Some OwnSweeper, cs_bids := ?keep, cs_sweeper := SRange []\<rparr>"
    by simp
  have k: "?keep = filter (\<lambda>(k, r). cs_now s - bid_t r \<le> 3 * Minute) (cs_bids s)"
    by (intro filter_cong) force+
  have "replicate (?n + 2) SweeperStep = SweeperStep # replicate ?n SweeperStep @ [SweeperStep]"
    by (simp add: replicate_append_same)
  then have "run cache_step (replicate (?n + 2) SweeperStep) s
      = cache_step SweeperStep (run cache_step (replicate ?n SweeperStep) (cache_step SweeperStep s))"
    by (simp add: run_append del: replicate_Suc)
  also have "\<dots> = s\<lparr>bidsLock := Some OwnSweeper, cs_bids := ?keep, cs_sweeper := SUnlock\<rparr>"
    unfolding 1 2 by (simp add: cache_step_def sweeper_step_def)
  finally show ?thesis unfolding k .
qed


text \<open>One turn of the sweeper's loop with nothing else running: the sleep of a minute and the
  sweep.\<close>

lemma sweep_cycle:
  assumes d: "distinct (map fst (cs_bids s))" and p: "cs_sweeper s = SStart" and l: "bidsLock s = None"
  shows "run cache_step ([SweeperStep, Tick (nat Minute), SweeperStep]
                          @ replicate (length (cs_bids s) + 2) SweeperStep) s
           = s\<lparr>cs_now := cs_now s + Minute, bidsLock := Some OwnSweeper,
               cs_bids := filter (\<lambda>(k, r). cs_now s + Minute - bid_t r \<le> 3 * Minute) (cs_bids s),
               cs_sweeper := SUnlock\<rparr>"
proof -
  let ?s3 = "s\<lparr>cs_now := cs_now s + Minute, cs_sweeper := SLock\<rparr>"
  have 3: "run cache_step [SweeperStep, Tick (nat Minute), SweeperStep] s = ?s3"
    using p by (simp add: cache_step_def sweeper_step_def Minute_def)
  have "distinct (map fst (cs_bids ?s3))" "cs_sweeper ?s3 = SLock" "bidsLock ?s3 = None"
    using d l by simp_all
  from sweep_undisturbed[OF this]
  have "run cache_step (replicate (length (cs_bids s) + 2) SweeperStep) ?s3
          = s\<lparr>cs_now := cs_now s + Minute, bidsLock := Some OwnSweeper,
               cs_bids := filter (\<lambda>(k, r). cs_now s + Minute - bid_t r \<le> 3 * Minute) (cs_bids s),
               cs_sweeper := SUnlock\<rparr>"
    by simp
  then show ?thesis unfolding run_append 3 .
qed

subsection \<open>The bid cache: the claim\<close>

text \<open>C6: the sweeper, a store and a load are serialised by \<^verbatim>\<open>bidsLock\<close>, the sweeper sleeps a
  minute before each sweep, and a sweep removes the entries older than three minutes and
  no other. From a cache with one entry per key, in the state \<open>s\<close> that a schedule \<open>es\<close> of
  clock ticks and steps of the sweeper and of the clients leaves, and the state \<open>s'\<close> after
  any further schedule \<open>es'\<close>:
  \<^item> the sweeper holds the lock exactly while it is inside its \<^verbatim>\<open>range\<close> loop or at \<^verbatim>\<open>Unlock\<close>,
    a client exactly while it is at its store or load or at \<^verbatim>\<open>Unlock\<close>, and a step that
    changes the map or reads it into a client is a step of the holder of the lock;
  \<^item> the visit of a key deletes its entry when the clock minus the entry's \<open>t\<close> is above three
    minutes, and leaves the map as it is otherwise;
  \<^item> when the sweeper is not sweeping in \<open>s\<close> and is at the end of a sweep in \<open>s'\<close>, no entry
    of the map in \<open>s'\<close> was older than three minutes at the clock of \<open>s\<close>;
  \<^item> while the sweeper stays in one sweep, an entry that is not older than three minutes at
    the clock of \<open>s'\<close> stays in the map;
  \<^item> when the sweeper is at the head of its loop in \<open>s\<close> and at \<^verbatim>\<open>Lock\<close> or sweeping in \<open>s'\<close>,
    at least a minute has passed; a sleeper whose minute has passed goes on to \<^verbatim>\<open>Lock\<close>, and
    after \<^verbatim>\<open>Unlock\<close> the sweeper is at the head of its loop again;
  \<^item> from the head of the loop with the lock free, a minute of sleep and then one sweeper
    step for the lock, one per key and one more bring the sweeper to \<^verbatim>\<open>Unlock\<close> a minute
    later, with the map holding exactly the entries that are not older than three minutes
    then.\<close>

theorem bid_cache_sweeper:
  assumes "distinct (map fst b)"
  shows
  "let s = cache_run t0 b ops es; s' = cache_run t0 b ops (es @ es') in
     (bidsLock s = Some OwnSweeper \<longleftrightarrow> sweeping (cs_sweeper s))
   \<and> (\<forall>i<length ops. bidsLock s = Some (OwnClient i) \<longleftrightarrow> client_in (cs_clients s ! i))
   \<and> (\<forall>e. cs_bids (cache_step e s) \<noteq> cs_bids s
            \<or> (\<exists>i<length ops. cl_loaded (cs_clients (cache_step e s) ! i) \<noteq> cl_loaded (cs_clients s ! i))
          \<longrightarrow> e = SweeperStep \<and> bidsLock s = Some OwnSweeper
            \<or> (\<exists>i<length ops. e = ClientStep i \<and> bidsLock s = Some (OwnClient i)))
   \<and> (\<forall>k ks. cs_sweeper s = SRange (k # ks) \<longrightarrow>
          cs_sweeper (cache_step SweeperStep s) = SRange ks
        \<and> map_of (cs_bids (cache_step SweeperStep s))
            = (\<lambda>k'. if k' = k \<and> (\<exists>r. map_of (cs_bids s) k = Some r \<and> cs_now s - bid_t r > 3 * Minute)
                     then None else map_of (cs_bids s) k'))
   \<and> (\<not> sweeping (cs_sweeper s) \<and> cs_sweeper s' = SUnlock \<longrightarrow>
        (\<forall>(k, r)\<in>set (cs_bids s'). cs_now s - bid_t r \<le> 3 * Minute))
   \<and> ((\<forall>n<length es'. sweeping (cs_sweeper (cache_run t0 b ops (es @ take n es')))) \<longrightarrow>
        (\<forall>(k, r)\<in>set (cs_bids s). cs_now s' - bid_t r \<le> 3 * Minute \<longrightarrow> (k, r) \<in> set (cs_bids s')))
   \<and> (cs_sweeper s = SStart \<and> (cs_sweeper s' = SLock \<or> sweeping (cs_sweeper s')) \<longrightarrow>
        cs_now s + Minute \<le> cs_now s')
   \<and> (\<forall>u. cs_sweeper s = SSleep u \<and> u \<le> cs_now s \<longrightarrow> cs_sweeper (cache_step SweeperStep s) = SLock)
   \<and> (cs_sweeper s = SUnlock \<longrightarrow>
        cs_sweeper (cache_step SweeperStep s) = SStart \<and> bidsLock (cache_step SweeperStep s) = None)
   \<and> (cs_sweeper s = SStart \<and> bidsLock s = None \<longrightarrow>
        cache_run t0 b ops (es @ [SweeperStep, Tick (nat Minute), SweeperStep]
                               @ replicate (length (cs_bids s) + 2) SweeperStep)
          = s\<lparr>cs_now := cs_now s + Minute, bidsLock := Some OwnSweeper,
              cs_bids := filter (\<lambda>(k, r). cs_now s + Minute - bid_t r \<le> 3 * Minute) (cs_bids s),
              cs_sweeper := SUnlock\<rparr>)"
proof -
  let ?s = "cache_run t0 b ops es"
  let ?s' = "cache_run t0 b ops (es @ es')"
  have inv: "cache_inv ?s" using assms by (rule cache_inv_reachable)
  have s': "?s' = run cache_step es' ?s" by (rule cache_run_append)
  have len: "length (cs_clients ?s) = length ops" by simp
  have c1: "bidsLock ?s = Some OwnSweeper \<longleftrightarrow> sweeping (cs_sweeper ?s)"
    using inv by (simp add: cache_inv_def)
  have c2: "\<forall>i<length ops. bidsLock ?s = Some (OwnClient i) \<longleftrightarrow> client_in (cs_clients ?s ! i)"
    using inv by (simp add: cache_inv_def)
  have c3: "\<forall>e. cs_bids (cache_step e ?s) \<noteq> cs_bids ?s
            \<or> (\<exists>i<length ops. cl_loaded (cs_clients (cache_step e ?s) ! i) \<noteq> cl_loaded (cs_clients ?s ! i))
          \<longrightarrow> e = SweeperStep \<and> bidsLock ?s = Some OwnSweeper
            \<or> (\<exists>i<length ops. e = ClientStep i \<and> bidsLock ?s = Some (OwnClient i))"
    using cache_access_by_holder[OF inv] unfolding len by blast
  have c4: "\<forall>k ks. cs_sweeper ?s = SRange (k # ks) \<longrightarrow>
          cs_sweeper (cache_step SweeperStep ?s) = SRange ks
        \<and> map_of (cs_bids (cache_step SweeperStep ?s))
            = (\<lambda>k'. if k' = k \<and> (\<exists>r. map_of (cs_bids ?s) k = Some r \<and> cs_now ?s - bid_t r > 3 * Minute)
                     then None else map_of (cs_bids ?s) k')"
    using sweeper_visit by blast
  have c5: "\<not> sweeping (cs_sweeper ?s) \<and> cs_sweeper ?s' = SUnlock \<longrightarrow>
        (\<forall>(k, r)\<in>set (cs_bids ?s'). cs_now ?s - bid_t r \<le> 3 * Minute)"
  proof
    assume a: "\<not> sweeping (cs_sweeper ?s) \<and> cs_sweeper ?s' = SUnlock"
    then have "swept (cs_now ?s) ?s"
      by (auto simp: swept_def sweeping_def split: sweeper_pc.splits)
    then have "swept (cs_now ?s) ?s'" unfolding s' using inv by (intro swept_run)
    then show "\<forall>(k, r)\<in>set (cs_bids ?s'). cs_now ?s - bid_t r \<le> 3 * Minute"
      using a by (simp add: swept_def)
  qed
  have c6: "(\<forall>n<length es'. sweeping (cs_sweeper (cache_run t0 b ops (es @ take n es')))) \<longrightarrow>
        (\<forall>(k, r)\<in>set (cs_bids ?s). cs_now ?s' - bid_t r \<le> 3 * Minute \<longrightarrow> (k, r) \<in> set (cs_bids ?s'))"
  proof (intro impI)
    assume "\<forall>n<length es'. sweeping (cs_sweeper (cache_run t0 b ops (es @ take n es')))"
    then have a: "\<forall>n<length es'. sweeping (cs_sweeper (run cache_step (take n es') ?s))"
      by (simp add: cache_run_append)
    show "\<forall>(k, r)\<in>set (cs_bids ?s). cs_now ?s' - bid_t r \<le> 3 * Minute \<longrightarrow> (k, r) \<in> set (cs_bids ?s')"
      unfolding s' using kept_run[OF inv a] by blast
  qed
  have c7: "cs_sweeper ?s = SStart \<and> (cs_sweeper ?s' = SLock \<or> sweeping (cs_sweeper ?s')) \<longrightarrow>
        cs_now ?s + Minute \<le> cs_now ?s'"
  proof
    assume a: "cs_sweeper ?s = SStart \<and> (cs_sweeper ?s' = SLock \<or> sweeping (cs_sweeper ?s'))"
    then have "slept (cs_now ?s) ?s" by (simp add: slept_def)
    then have "slept (cs_now ?s) ?s'" unfolding s' by (rule slept_run)
    then show "cs_now ?s + Minute \<le> cs_now ?s'"
      using a by (auto simp: slept_def sweeping_def)
  qed
  have c8: "\<forall>u. cs_sweeper ?s = SSleep u \<and> u \<le> cs_now ?s \<longrightarrow> cs_sweeper (cache_step SweeperStep ?s) = SLock"
    by (simp add: cache_step_def sweeper_step_def)
  have c9: "cs_sweeper ?s = SUnlock \<longrightarrow>
        cs_sweeper (cache_step SweeperStep ?s) = SStart \<and> bidsLock (cache_step SweeperStep ?s) = None"
    by (simp add: cache_step_def sweeper_step_def)
  have c10: "cs_sweeper ?s = SStart \<and> bidsLock ?s = None \<longrightarrow>
        cache_run t0 b ops (es @ [SweeperStep, Tick (nat Minute), SweeperStep]
                               @ replicate (length (cs_bids ?s) + 2) SweeperStep)
          = ?s\<lparr>cs_now := cs_now ?s + Minute, bidsLock := Some OwnSweeper,
              cs_bids := filter (\<lambda>(k, r). cs_now ?s + Minute - bid_t r \<le> 3 * Minute) (cs_bids ?s),
              cs_sweeper := SUnlock\<rparr>"
  proof
    assume a: "cs_sweeper ?s = SStart \<and> bidsLock ?s = None"
    have d: "distinct (map fst (cs_bids ?s))" using inv by (simp add: cache_inv_def)
    show "cache_run t0 b ops (es @ [SweeperStep, Tick (nat Minute), SweeperStep]
                               @ replicate (length (cs_bids ?s) + 2) SweeperStep)
          = ?s\<lparr>cs_now := cs_now ?s + Minute, bidsLock := Some OwnSweeper,
              cs_bids := filter (\<lambda>(k, r). cs_now ?s + Minute - bid_t r \<le> 3 * Minute) (cs_bids ?s),
              cs_sweeper := SUnlock\<rparr>"
      unfolding cache_run_append using a by (intro sweep_cycle[OF d]) simp_all
  qed
  show ?thesis unfolding Let_def
    using c1 c2 c3 c4 c5 c6 c7 c8 c9 c10 by (intro conjI)
qed

text \<open>A cache with an entry stored at time 0 and one stored at 200 seconds, at 200 seconds.\<close>

definition example_old :: "bidRespKey \<times> bidResp" where
  "example_old = ((1, ''0xaa''), bidResp_zero\<lparr>bid_t := 0\<rparr>)"

definition example_fresh :: "bidRespKey \<times> bidResp" where
  "example_fresh = ((2, ''0xbb''), bidResp_zero\<lparr>bid_t := 200 * 1000000000\<rparr>)"

lemmas cache_eval = cache_run_def cache_init_def cache_step_def sweeper_step_def client_step_def
  bids_store_def bids_load_def bids_delete_def Minute_def Let_def sweeping_def

theorem bid_cache_sweeper_witness:
  "distinct (map fst [example_old, example_fresh])
   \<and> cs_sweeper (cache_run (200 * 1000000000) [example_old, example_fresh] [Load (1, ''0xaa'')] []) = SStart
   \<and> cs_bids (cache_run (200 * 1000000000) [example_old, example_fresh] [Load (1, ''0xaa'')]
        [SweeperStep, Tick (nat Minute), SweeperStep, SweeperStep, SweeperStep, SweeperStep, SweeperStep])
       = [example_fresh]
   \<and> cs_now (cache_run (200 * 1000000000) [example_old, example_fresh] [Load (1, ''0xaa'')] [])
        + Minute
       \<le> cs_now (cache_run (200 * 1000000000) [example_old, example_fresh] [Load (1, ''0xaa'')]
            [SweeperStep, Tick (nat Minute), SweeperStep, SweeperStep])"
proof -
  let ?b = "[example_old, example_fresh]"
  let ?ops = "[Load (1, ''0xaa'')]"
  let ?t0 = "200 * 1000000000 :: Time"
  let ?s = "cache_run ?t0 ?b ?ops []"
  have d: "distinct (map fst ?b)" by (simp add: example_old_def example_fresh_def)
  have s: "cs_sweeper ?s = SStart" "bidsLock ?s = None" "cs_bids ?s = ?b" "cs_now ?s = ?t0"
    by (simp_all add: cache_run_def cache_init_def)
  have l: "cs_sweeper (cache_run ?t0 ?b ?ops ([] @ [SweeperStep, Tick (nat Minute), SweeperStep, SweeperStep]))
             = SRange (map fst ?b)"
    by (simp add: cache_eval)
  note t = bid_cache_sweeper[OF d, of ?t0 ?ops "[]" "[SweeperStep, Tick (nat Minute), SweeperStep, SweeperStep]",
      unfolded Let_def]
  have a: "cs_now ?s + Minute
       \<le> cs_now (cache_run ?t0 ?b ?ops ([] @ [SweeperStep, Tick (nat Minute), SweeperStep, SweeperStep]))"
    using t[THEN conjunct2, THEN conjunct2, THEN conjunct2, THEN conjunct2, THEN conjunct2, THEN conjunct2,
        THEN conjunct1] s(1) l
    by (simp add: sweeping_def)
  then have a: "cs_now ?s + Minute
       \<le> cs_now (cache_run ?t0 ?b ?ops [SweeperStep, Tick (nat Minute), SweeperStep, SweeperStep])"
    by simp
  have "cache_run ?t0 ?b ?ops ([] @ [SweeperStep, Tick (nat Minute), SweeperStep]
                               @ replicate (length (cs_bids ?s) + 2) SweeperStep)
          = ?s\<lparr>cs_now := cs_now ?s + Minute, bidsLock := Some OwnSweeper,
              cs_bids := filter (\<lambda>(k, r). cs_now ?s + Minute - bid_t r \<le> 3 * Minute) (cs_bids ?s),
              cs_sweeper := SUnlock\<rparr>"
    using t[THEN conjunct2, THEN conjunct2, THEN conjunct2, THEN conjunct2, THEN conjunct2, THEN conjunct2,
        THEN conjunct2, THEN conjunct2, THEN conjunct2] s(1,2)
    by blast
  then have c: "cs_bids (cache_run ?t0 ?b ?ops
        [SweeperStep, Tick (nat Minute), SweeperStep, SweeperStep, SweeperStep, SweeperStep, SweeperStep])
       = [example_fresh]"
    unfolding s by (simp add: example_old_def example_fresh_def bidResp_zero_def Minute_def)
  show ?thesis using d s(1) a c by blast
qed

end
